theory Spec2Isabelle
  imports Complex_Main "HOL-Library.Word"
begin

unbundle bit_operations_syntax

section \<open>Strings and numbers of the runtime\<close>

text \<open>
  A JavaScript string is a sequence of UTF-16 code units; \<open>charCodeAt\<close> reads one of
  them, \<open>length\<close> counts them and \<open>substring\<close> cuts between them. Literals of
  this development are ASCII and are written with \<open>utf16\<close>.
\<close>

type_synonym jsstring = "16 word list"

definition utf16 :: "string \<Rightarrow> jsstring" where
  "utf16 s = map of_char s"

text \<open>
  \<open>String.prototype.trim\<close> removes the WhiteSpace and LineTerminator code points of
  ECMAScript from both ends.
\<close>

definition isWhiteSpace :: "16 word \<Rightarrow> bool" where
  "isWhiteSpace c =
     (c \<in> {0x09, 0x0A, 0x0B, 0x0C, 0x0D, 0x20, 0xA0, 0x1680, 0x2028, 0x2029, 0x202F,
           0x205F, 0x3000, 0xFEFF}
      \<or> (0x2000 \<le> c \<and> c \<le> 0x200A))"

definition trim :: "jsstring \<Rightarrow> jsstring" where
  "trim s = rev (dropWhile isWhiteSpace (rev (dropWhile isWhiteSpace s)))"

text \<open>The test \<open>text && text.trim().length > 0\<close>.\<close>

definition nonBlank :: "jsstring \<Rightarrow> bool" where
  "nonBlank text = (text \<noteq> [] \<and> trim text \<noteq> [])"

text \<open>\<open>text.substring(0, n)\<close>: the first \<open>n\<close> code units.\<close>

definition substring0 :: "nat \<Rightarrow> jsstring \<Rightarrow> jsstring" where
  "substring0 n s = take n s"

text \<open>
  \<open>toLowerCase\<close> restricted to ASCII letters, for concrete runs. The services take
  the runtime's \<open>toLowerCase\<close> (full Unicode case mapping) as a parameter of the
  environment, so nothing proved below depends on this restriction.
\<close>

definition asciiLower :: "jsstring \<Rightarrow> jsstring" where
  "asciiLower s = map (\<lambda>c. if 0x41 \<le> c \<and> c \<le> 0x5A then c + 0x20 else c) s"

text \<open>
  A JavaScript number as far as the pipeline needs it: a finite value, idealised as a
  real (rounding of IEEE doubles is not modelled), the two infinities and NaN.
  \<open>js_div\<close> is the \<open>/\<close> operator on two finite operands, the divisor being a
  non-negative zero when it is zero.
\<close>

datatype jsnum = Num real | PosInfinity | NegInfinity | NaN

definition js_div :: "real \<Rightarrow> real \<Rightarrow> jsnum" where
  "js_div a b =
     (if b \<noteq> 0 then Num (a / b)
      else if a = 0 then NaN
      else if 0 < a then PosInfinity
      else NegInfinity)"

type_synonym vector = "jsnum list"

section \<open>EmbeddingsService: hash and deterministic fallback generator\<close>

text \<open>
  \<^verbatim>\<open>simpleHash\<close>: \<open>hash = ((hash << 5) - hash) + char; hash = hash & hash\<close> for every
  code unit, then \<open>Math.abs(hash)\<close>. The bit operations convert to a 32-bit two's
  complement integer, so the loop is arithmetic on \<open>32 word\<close>; \<open>Math.abs\<close> works on
  the signed value as a number, and \<open>Math.abs(-2147483648)\<close> is \<open>2147483648\<close>.
\<close>

definition hashStep :: "32 word \<Rightarrow> 16 word \<Rightarrow> 32 word" where
  "hashStep hash char = (push_bit 5 hash - hash) + ucast char"

definition simpleHash :: "jsstring \<Rightarrow> nat" where
  "simpleHash str = nat \<bar>sint (foldl hashStep 0 str)\<bar>"

text \<open>
  \<^verbatim>\<open>generateMockEmbedding\<close>: 384 components \<open>Math.sin(hash * (i + 1)) * 0.5\<close>, the
  magnitude by \<open>reduce\<close>, and every component divided by the magnitude.
\<close>

definition mockComponents :: "nat \<Rightarrow> real list" where
  "mockComponents hash = map (\<lambda>i. sin (real (hash * (i + 1))) * 0.5) [0..<384]"

definition magnitude :: "real list \<Rightarrow> real" where
  "magnitude embedding = sqrt (foldl (\<lambda>sum val. sum + val * val) 0 embedding)"

definition generateMockEmbedding :: "jsstring \<Rightarrow> vector" where
  "generateMockEmbedding text =
     (let hash = simpleHash text;
          embedding = mockComponents hash
      in map (\<lambda>val. js_div val (magnitude embedding)) embedding)"

text \<open>
  The L2 norm of a vector of JavaScript numbers, and the property "the norm is within
  1e-6 of 1.0". A vector with a NaN component has norm NaN, which is within no distance
  of anything.
\<close>

definition finiteParts :: "vector \<Rightarrow> real list option" where
  "finiteParts v =
     (if list_all (\<lambda>x. case x of Num r \<Rightarrow> True | _ \<Rightarrow> False) v
      then Some (map (\<lambda>x. case x of Num r \<Rightarrow> r | _ \<Rightarrow> 0) v)
      else None)"

definition l2norm :: "vector \<Rightarrow> jsnum" where
  "l2norm v =
     (if NaN \<in> set v then NaN
      else case finiteParts v of
             Some rs \<Rightarrow> Num (magnitude rs)
           | None \<Rightarrow> PosInfinity)"

definition unitNorm :: "vector \<Rightarrow> bool" where
  "unitNorm v = (case l2norm v of Num n \<Rightarrow> \<bar>n - 1\<bar> \<le> 1 / 10 ^ 6 | _ \<Rightarrow> False)"

section \<open>EmbeddingsService: cache, remote provider, single and batch generation\<close>

text \<open>
  Everything thrown is an \<open>Error\<close> object; the model keeps its kind. \<open>NotFound\<close>
  is the error \<open>Incident ... not found\<close> of \<^verbatim>\<open>updateIncidentEmbeddings\<close>.
\<close>

datatype error = ProviderError | TypeError | PersistenceError | RangeError | NotFound

text \<open>The cache key \<^verbatim>\<open>`emb_${hash}`\<close>: the prefix and the decimal digits of the hash.\<close>

datatype cache_key = Emb nat

text \<open>
  The columns of the \<open>incidents\<close> table that the pipeline reads or writes. \<open>title\<close>
  is not nullable; \<open>description\<close>, \<open>category\<close> and the two vector columns are.
\<close>

record incident =
  inc_id :: string
  title :: jsstring
  description :: "jsstring option"
  category :: "string option"
  datetime :: string
  title_vector :: "vector option"
  description_vector :: "vector option"

text \<open>
  What the services are given from outside:
  \<^item> \<open>toLowerCase\<close>, the runtime's \<open>String.prototype.toLowerCase\<close>;
  \<^item> \<open>openai\<close>, the client of the remote provider: \<open>None\<close> when no API key is
    configured; otherwise the answer of \<open>embeddings.create\<close> to the \<open>n\<close>-th request
    of the process for the given inputs, either the vectors of \<open>response.data\<close> or a
    thrown error;
  \<^item> \<open>update_rejects\<close>, whether the \<open>n\<close>-th \<open>incidentRepository.update\<close> of the
    process is rejected by the store.
\<close>

record env =
  toLowerCase :: "jsstring \<Rightarrow> jsstring"
  openai :: "(nat \<Rightarrow> jsstring list \<Rightarrow> error + vector list) option"
  update_rejects :: "nat \<Rightarrow> bool"

text \<open>
  The state of the process and of the store: the cache of the embeddings service, the
  rows of the table, and three counters that only observe: how many requests went to
  the remote provider, how many vectors the fallback generator produced, and how many
  updates were issued to the store.
\<close>

record world =
  embeddingCache :: "cache_key \<rightharpoonup> vector"
  remote_calls :: nat
  mock_calls :: nat
  table :: "incident list"
  update_calls :: nat

definition createCacheKey :: "env \<Rightarrow> jsstring \<Rightarrow> cache_key" where
  "createCacheKey env text = Emb (simpleHash (trim (toLowerCase env text)))"

definition callMock :: "jsstring \<Rightarrow> world \<Rightarrow> vector \<times> world" where
  "callMock text w = (generateMockEmbedding text, w\<lparr>mock_calls := mock_calls w + 1\<rparr>)"

definition callRemote ::
  "(nat \<Rightarrow> jsstring list \<Rightarrow> error + vector list) \<Rightarrow> jsstring list \<Rightarrow> world
     \<Rightarrow> (error + vector list) \<times> world" where
  "callRemote api input w = (api (remote_calls w) input, w\<lparr>remote_calls := remote_calls w + 1\<rparr>)"

definition mockResult :: "jsstring \<Rightarrow> world \<Rightarrow> vector option \<times> world" where
  "mockResult text w = (case callMock text w of (v, w') \<Rightarrow> (Some v, w'))"

text \<open>
  \<^verbatim>\<open>generateEmbedding\<close>. \<open>None\<close> is the \<open>null\<close> returned for a blank text. An
  empty \<open>response.data\<close> makes \<open>response.data[0].embedding\<close> throw a TypeError,
  which the \<open>catch\<close> turns into the fallback like any error of the provider.
\<close>

definition generateEmbedding :: "env \<Rightarrow> jsstring \<Rightarrow> world \<Rightarrow> vector option \<times> world" where
  "generateEmbedding env text w =
     (if \<not> nonBlank text then (None, w)
      else
        let cacheKey = createCacheKey env text in
        case embeddingCache w cacheKey of
          Some cached \<Rightarrow> (Some cached, w)
        | None \<Rightarrow>
            (case openai env of
               Some api \<Rightarrow>
                 (case callRemote api [substring0 8191 text] w of
                    (Inr (embedding # rest), w') \<Rightarrow>
                      (Some embedding,
                       w'\<lparr>embeddingCache := (embeddingCache w')(cacheKey \<mapsto> embedding)\<rparr>)
                  | (Inr [], w') \<Rightarrow> mockResult text w'
                  | (Inl e, w') \<Rightarrow> mockResult text w')
             | None \<Rightarrow> mockResult text w))"

text \<open>
  \<^verbatim>\<open>generateBatchEmbeddings\<close>. \<open>results\<close> is the array \<open>new Array(validTexts.length)\<close>;
  a slot never assigned is \<open>None\<close>.

  \<open>cacheCheck\<close> is the first \<open>forEach\<close>: a cached text fills its slot, an uncached one
  is queued with its index and its first 8191 code units.
\<close>

type_synonym results = "vector option list"

fun cacheCheck ::
  "env \<Rightarrow> world \<Rightarrow> jsstring list \<Rightarrow> nat \<Rightarrow> results \<times> nat list \<times> jsstring list
     \<Rightarrow> results \<times> nat list \<times> jsstring list" where
  "cacheCheck env w [] index acc = acc"
| "cacheCheck env w (text # texts) index (results, uncachedIndices, uncachedTexts) =
     (case embeddingCache w (createCacheKey env text) of
        Some cached \<Rightarrow>
          cacheCheck env w texts (index + 1)
            (results[index := Some cached], uncachedIndices, uncachedTexts)
      | None \<Rightarrow>
          cacheCheck env w texts (index + 1)
            (results, uncachedIndices @ [index], uncachedTexts @ [substring0 8191 text]))"

text \<open>
  \<open>storeResponse\<close> is \<open>response.data.forEach((embeddingData, batchIndex) => ...)\<close>,
  walking \<open>response.data\<close> and \<open>batchIndices\<close> together. When the response holds
  more vectors than the request had texts, \<open>batchIndices[batchIndex]\<close> is
  \<open>undefined\<close>, so is \<open>validTexts[originalIndex]\<close>, and \<open>createCacheKey\<close> throws a
  TypeError. When it holds fewer, the remaining slots stay unassigned.
\<close>

fun storeResponse ::
  "env \<Rightarrow> jsstring list \<Rightarrow> vector list \<Rightarrow> nat list \<Rightarrow> results \<times> world
     \<Rightarrow> error option \<times> results \<times> world" where
  "storeResponse env validTexts [] batchIndices (results, w) = (None, results, w)"
| "storeResponse env validTexts (embedding # data) [] (results, w) = (Some TypeError, results, w)"
| "storeResponse env validTexts (embedding # data) (originalIndex # batchIndices) (results, w) =
     storeResponse env validTexts data batchIndices
       (results[originalIndex := Some embedding],
        w\<lparr>embeddingCache :=
             (embeddingCache w)(createCacheKey env (validTexts ! originalIndex) \<mapsto> embedding)\<rparr>)"

text \<open>
  \<open>remoteLoop\<close> is the loop \<open>for (let i = 0; i < uncachedTexts.length; i += batchSize)\<close>
  with \<open>batchSize = 100\<close>. It stops at the first thrown error and hands it, with the
  results and the state reached, to the \<open>catch\<close>.
\<close>

function remoteLoop ::
  "env \<Rightarrow> (nat \<Rightarrow> jsstring list \<Rightarrow> error + vector list) \<Rightarrow> jsstring list \<Rightarrow> nat list
     \<Rightarrow> jsstring list \<Rightarrow> nat \<Rightarrow> results \<times> world \<Rightarrow> error option \<times> results \<times> world" where
  "remoteLoop env api validTexts uncachedIndices uncachedTexts i (results, w) =
     (if i < length uncachedTexts then
        (let batch = take 100 (drop i uncachedTexts);
             batchIndices = take 100 (drop i uncachedIndices)
         in case callRemote api batch w of
              (Inl e, w') \<Rightarrow> (Some e, results, w')
            | (Inr data, w') \<Rightarrow>
                (case storeResponse env validTexts data batchIndices (results, w') of
                   (Some e, results', w'') \<Rightarrow> (Some e, results', w'')
                 | (None, results', w'') \<Rightarrow>
                     remoteLoop env api validTexts uncachedIndices uncachedTexts (i + 100)
                       (results', w'')))
      else (None, results, w))"
  by pat_completeness auto
termination
  by (relation "measure (\<lambda>(env, api, validTexts, uncachedIndices, uncachedTexts, i, rw).
        length uncachedTexts - i)") auto

declare remoteLoop.simps [simp del]

text \<open>
  \<open>mockFill\<close> is \<open>uncachedIndices.forEach((index, i) => results[index] =
  generateMockEmbedding(uncachedTexts[i]))\<close>; the two arrays are filled together by
  \<open>cacheCheck\<close> and have the same length.
\<close>

definition mockFill :: "nat list \<Rightarrow> jsstring list \<Rightarrow> results \<times> world \<Rightarrow> results \<times> world" where
  "mockFill uncachedIndices uncachedTexts rw =
     foldl (\<lambda>(results, w) (index, text).
              case callMock text w of (v, w') \<Rightarrow> (results[index := Some v], w'))
       rw (zip uncachedIndices uncachedTexts)"

text \<open>
  An \<open>async\<close> function runs without interruption up to its first \<open>await\<close>.
  \<open>batchStart\<close> is that part of \<^verbatim>\<open>generateBatchEmbeddings\<close>: the filter of blank
  texts and the cache check. \<open>batchFinish\<close> is the rest: the requests to the provider,
  the fallback, and the return of \<open>results\<close>. A caller that awaits the call runs the
  two in a row; \<^verbatim>\<open>processSingleBatch\<close> starts two calls before it awaits either.
\<close>

type_synonym pending = "jsstring list \<times> results \<times> nat list \<times> jsstring list"

definition batchStart :: "env \<Rightarrow> jsstring list \<Rightarrow> world \<Rightarrow> pending" where
  "batchStart env texts w =
     (let validTexts = filter nonBlank texts
      in (validTexts,
          cacheCheck env w validTexts 0 (replicate (length validTexts) None, [], [])))"

definition batchFinish :: "env \<Rightarrow> pending \<Rightarrow> world \<Rightarrow> results \<times> world" where
  "batchFinish env p w =
     (case p of (validTexts, results, uncachedIndices, uncachedTexts) \<Rightarrow>
        if validTexts = [] then ([], w)
        else if uncachedTexts \<noteq> [] then
          (case openai env of
             Some api \<Rightarrow>
               (case remoteLoop env api validTexts uncachedIndices uncachedTexts 0 (results, w) of
                  (None, results', w') \<Rightarrow> (results', w')
                | (Some e, results', w') \<Rightarrow> mockFill uncachedIndices uncachedTexts (results', w'))
           | None \<Rightarrow> mockFill uncachedIndices uncachedTexts (results, w))
        else (results, w))"

definition generateBatchEmbeddings :: "env \<Rightarrow> jsstring list \<Rightarrow> world \<Rightarrow> results \<times> world" where
  "generateBatchEmbeddings env texts w = batchFinish env (batchStart env texts w) w"

section \<open>VectorProcessingService\<close>

datatype field = TitleVector | DescriptionVector

definition setVector :: "field \<Rightarrow> vector \<Rightarrow> incident \<Rightarrow> incident" where
  "setVector f v r =
     (case f of
        TitleVector \<Rightarrow> r\<lparr>title_vector := Some v\<rparr>
      | DescriptionVector \<Rightarrow> r\<lparr>description_vector := Some v\<rparr>)"

text \<open>
  \<open>incidentRepository.update({ id }, { <column>: vector })\<close>: the statement is issued
  when the promise is created. A rejected update changes no row and is remembered in
  the flag; an accepted one writes the column of every row with that id.
\<close>

definition repoUpdate ::
  "env \<Rightarrow> string \<Rightarrow> field \<Rightarrow> vector \<Rightarrow> bool \<times> world \<Rightarrow> bool \<times> world" where
  "repoUpdate env ident f v st =
     (case st of (rejected, w) \<Rightarrow>
        let w' = w\<lparr>update_calls := update_calls w + 1\<rparr> in
        if update_rejects env (update_calls w) then (True, w')
        else (rejected,
              w'\<lparr>table := map (\<lambda>r. if inc_id r = ident then setVector f v r else r) (table w')\<rparr>))"

text \<open>\<open>embeddings[index]\<close>: \<open>undefined\<close> past the end of the array.\<close>

definition at_index :: "results \<Rightarrow> nat \<Rightarrow> vector option" where
  "at_index embeddings index = (if index < length embeddings then embeddings ! index else None)"

text \<open>
  \<open>needs.forEach((incident, index) => { if (embeddings[index]) updates.push(update(...)) })\<close>.
  Every array is truthy, so the test fails only for an unassigned or missing slot.
\<close>

fun issueUpdates ::
  "env \<Rightarrow> field \<Rightarrow> incident list \<Rightarrow> nat \<Rightarrow> results \<Rightarrow> bool \<times> world \<Rightarrow> bool \<times> world" where
  "issueUpdates env f [] index embeddings st = st"
| "issueUpdates env f (incident # rest) index embeddings st =
     issueUpdates env f rest (index + 1) embeddings
       (case at_index embeddings index of
          Some v \<Rightarrow> repoUpdate env (inc_id incident) f v st
        | None \<Rightarrow> st)"

definition needsTitle :: "incident \<Rightarrow> bool" where
  "needsTitle inc = (title_vector inc = None \<and> title inc \<noteq> [])"

definition needsDescription :: "incident \<Rightarrow> bool" where
  "needsDescription inc =
     (description_vector inc = None \<and>
      (case description inc of None \<Rightarrow> False | Some d \<Rightarrow> d \<noteq> []))"

definition descriptionText :: "incident \<Rightarrow> jsstring" where
  "descriptionText inc = (case description inc of None \<Rightarrow> [] | Some d \<Rightarrow> d)"

text \<open>
  \<^verbatim>\<open>processSingleBatch\<close>. The incidents are the objects loaded by the caller, not
  re-read from the store. Both \<^verbatim>\<open>generateBatchEmbeddings\<close> calls are started inside
  the array given to \<open>Promise.all\<close>, so both cache checks see the cache as it is
  before either call stores anything; the title call is then finished before the
  description call. All updates are issued, titles first; \<open>Promise.all(updates)\<close>
  throws when one of them was rejected. The result is the thrown error, if any, and the
  state reached.
\<close>

definition processSingleBatch :: "env \<Rightarrow> incident list \<Rightarrow> world \<Rightarrow> error option \<times> world" where
  "processSingleBatch env incidents w =
     (let needsTitleEmbedding = filter needsTitle incidents;
          needsDescriptionEmbedding = filter needsDescription incidents;
          titleTexts = map title needsTitleEmbedding;
          descriptionTexts = map descriptionText needsDescriptionEmbedding;
          titlePending = (if titleTexts \<noteq> [] then Some (batchStart env titleTexts w) else None);
          descriptionPending =
            (if descriptionTexts \<noteq> [] then Some (batchStart env descriptionTexts w) else None);
          (titleEmbeddings, w1) =
            (case titlePending of Some p \<Rightarrow> batchFinish env p w | None \<Rightarrow> ([], w));
          (descriptionEmbeddings, w2) =
            (case descriptionPending of Some p \<Rightarrow> batchFinish env p w1 | None \<Rightarrow> ([], w1));
          (rejected, w3) =
            issueUpdates env DescriptionVector needsDescriptionEmbedding 0 descriptionEmbeddings
              (issueUpdates env TitleVector needsTitleEmbedding 0 titleEmbeddings (False, w2))
      in (if rejected then Some PersistenceError else None, w3))"

text \<open>
  \<^verbatim>\<open>processBatchEmbeddings\<close>: the loop \<open>for (let i = 0; i < incidents.length; i +=
  BATCH_SIZE)\<close> with \<open>BATCH_SIZE = 50\<close> and its \<open>try\<close>/\<open>catch\<close> around
  \<^verbatim>\<open>processSingleBatch\<close>. Logging and the pause of 100 ms between sub-batches have no
  effect on the state.
\<close>

record batch_result =
  processed :: nat
  errors :: nat

function batchLoop ::
  "env \<Rightarrow> incident list \<Rightarrow> nat \<Rightarrow> batch_result \<times> world \<Rightarrow> batch_result \<times> world" where
  "batchLoop env incidents i (res, w) =
     (if i < length incidents then
        (let batch = take 50 (drop i incidents)
         in case processSingleBatch env batch w of
              (None, w') \<Rightarrow>
                batchLoop env incidents (i + 50)
                  (res\<lparr>processed := processed res + length batch\<rparr>, w')
            | (Some e, w') \<Rightarrow>
                batchLoop env incidents (i + 50)
                  (res\<lparr>errors := errors res + length batch\<rparr>, w'))
      else (res, w))"
  by pat_completeness auto
termination
  by (relation "measure (\<lambda>(env, incidents, i, rw). length incidents - i)") auto

declare batchLoop.simps [simp del]

definition processBatchEmbeddings ::
  "env \<Rightarrow> incident list \<Rightarrow> world \<Rightarrow> batch_result \<times> world" where
  "processBatchEmbeddings env incidents w =
     (if incidents = [] then (\<lparr>processed = 0, errors = 0\<rparr>, w)
      else batchLoop env incidents 0 (\<lparr>processed = 0, errors = 0\<rparr>, w))"

text \<open>
  \<^verbatim>\<open>processAllMissingEmbeddings\<close>: the rows selected by
  \<open>title_vector IS NULL OR description_vector IS NULL\<close>, handed to
  \<^verbatim>\<open>processBatchEmbeddings\<close>.
\<close>

definition missingEmbeddings :: "incident \<Rightarrow> bool" where
  "missingEmbeddings inc = (title_vector inc = None \<or> description_vector inc = None)"

definition processAllMissingEmbeddings :: "env \<Rightarrow> world \<Rightarrow> batch_result \<times> world" where
  "processAllMissingEmbeddings env w =
     processBatchEmbeddings env (filter missingEmbeddings (table w)) w"

text \<open>
  Vocabulary for the statements about the loop: the sub-batches of a list, the
  outcome of \<^verbatim>\<open>processSingleBatch\<close> on each of them in turn, every one run in the
  state its predecessor left, and the state that the last of them leaves.
\<close>

function subBatches :: "incident list \<Rightarrow> incident list list" where
  "subBatches incidents =
     (if incidents = [] then [] else take 50 incidents # subBatches (drop 50 incidents))"
  by pat_completeness auto
termination
  by (relation "measure length") auto

declare subBatches.simps [simp del]

fun batchTrace :: "env \<Rightarrow> incident list list \<Rightarrow> world \<Rightarrow> (incident list \<times> error option) list" where
  "batchTrace env [] w = []"
| "batchTrace env (batch # batches) w =
     (case processSingleBatch env batch w of
        (outcome, w') \<Rightarrow> (batch, outcome) # batchTrace env batches w')"

fun batchRun :: "env \<Rightarrow> incident list list \<Rightarrow> world \<Rightarrow> world" where
  "batchRun env [] w = w"
| "batchRun env (batch # batches) w = batchRun env batches (snd (processSingleBatch env batch w))"

definition countWhere :: "(error option \<Rightarrow> bool) \<Rightarrow> (incident list \<times> error option) list \<Rightarrow> nat" where
  "countWhere ok trace = sum_list (map (\<lambda>(batch, outcome). if ok outcome then length batch else 0) trace)"

section \<open>IncidentsService: similarity queries\<close>

text \<open>
  What the queries are given from outside: the \<open><=>\<close> operator of the store (cosine
  distance), its comparison of the \<open>datetime\<close> column, and the clock: the ISO strings
  of yesterday 00:00 and tomorrow 23:59:59.999, and \<open>new Date(s).toISOString()\<close>,
  which throws a RangeError for a string that is no date.
\<close>

record search_env =
  distance :: "vector \<Rightarrow> vector \<Rightarrow> real"
  dateLe :: "string \<Rightarrow> string \<Rightarrow> bool"
  yesterday :: string
  tomorrow :: string
  toISOString :: "string \<Rightarrow> string option"

record filters =
  categories :: "string list option"
  startDate :: "string option"
  endDate :: "string option"
  similarityThreshold :: "real option"

text \<open>
  \<open>filters?.similarityThreshold || 0.8\<close>: the operator \<open>||\<close> takes its right operand
  when the left one is falsy, which \<open>undefined\<close> and the number \<open>0\<close> both are.
\<close>

definition effectiveThreshold :: "filters option \<Rightarrow> real" where
  "effectiveThreshold fs =
     (case fs of
        None \<Rightarrow> 0.8
      | Some f \<Rightarrow>
          (case similarityThreshold f of
             None \<Rightarrow> 0.8
           | Some t \<Rightarrow> if t = 0 then 0.8 else t))"

text \<open>\<open>filters?.startDate ? new Date(filters.startDate) : yesterday\<close>, then \<open>toISOString()\<close>.\<close>

definition dateBound :: "search_env \<Rightarrow> string option \<Rightarrow> string \<Rightarrow> error + string" where
  "dateBound senv given fallback =
     (case given of
        None \<Rightarrow> Inr fallback
      | Some s \<Rightarrow>
          if s = [] then Inr fallback
          else (case toISOString senv s of None \<Rightarrow> Inl RangeError | Some isoString \<Rightarrow> Inr isoString))"

definition categoryOk :: "filters option \<Rightarrow> incident \<Rightarrow> bool" where
  "categoryOk fs r =
     (case fs of
        None \<Rightarrow> True
      | Some f \<Rightarrow>
          (case categories f of
             None \<Rightarrow> True
           | Some cs \<Rightarrow>
               if cs = [] then True
               else (case category r of None \<Rightarrow> False | Some c \<Rightarrow> c \<in> set cs)))"

definition score :: "search_env \<Rightarrow> vector \<Rightarrow> incident \<Rightarrow> real" where
  "score senv q r = (case title_vector r of None \<Rightarrow> 0 | Some v \<Rightarrow> distance senv v q)"

type_synonym scored = "incident \<times> real"

text \<open>
  \<^verbatim>\<open>semanticSearch\<close>: the rows with a title vector whose distance to the query vector
  is below the threshold and that pass the category and date filters, ordered by
  \<open>ORDER BY distance ASC\<close> and cut by \<open>LIMIT\<close> (default 20); every row is returned
  with its distance as \<open>similarity_score\<close>.
\<close>

definition semanticSearch ::
  "search_env \<Rightarrow> world \<Rightarrow> vector \<Rightarrow> nat option \<Rightarrow> filters option \<Rightarrow> error + scored list" where
  "semanticSearch senv w embedding limit fs =
     (let threshold = effectiveThreshold fs;
          lim = (case limit of None \<Rightarrow> 20 | Some n \<Rightarrow> n)
      in case dateBound senv (case fs of None \<Rightarrow> None | Some f \<Rightarrow> startDate f) (yesterday senv) of
           Inl e \<Rightarrow> Inl e
         | Inr startIso \<Rightarrow>
             (case dateBound senv (case fs of None \<Rightarrow> None | Some f \<Rightarrow> endDate f) (tomorrow senv) of
                Inl e \<Rightarrow> Inl e
              | Inr endIso \<Rightarrow>
                  Inr (map (\<lambda>r. (r, score senv embedding r))
                        (take lim
                          (sort_key (score senv embedding)
                            (filter (\<lambda>r. title_vector r \<noteq> None
                                        \<and> score senv embedding r < threshold
                                        \<and> categoryOk fs r
                                        \<and> dateLe senv startIso (datetime r)
                                        \<and> dateLe senv (datetime r) endIso)
                               (table w)))))))"

text \<open>
  \<^verbatim>\<open>findSimilarIncidents\<close>: \<open>findOne\<close> by id, an empty array when there is no such
  row or it has no title vector, and otherwise the rows with a title vector and another
  id, ordered by distance to that vector and cut by \<open>LIMIT\<close> (default 10). The function
  has no \<open>throw\<close>; its result has the type of \<^verbatim>\<open>semanticSearch\<close>'s.
\<close>

definition findSimilarIncidents ::
  "search_env \<Rightarrow> world \<Rightarrow> string \<Rightarrow> nat option \<Rightarrow> error + scored list" where
  "findSimilarIncidents senv w incidentId limit =
     (let lim = (case limit of None \<Rightarrow> 10 | Some n \<Rightarrow> n)
      in case find (\<lambda>r. inc_id r = incidentId) (table w) of
           None \<Rightarrow> Inr []
         | Some incident \<Rightarrow>
             (case title_vector incident of
                None \<Rightarrow> Inr []
              | Some v \<Rightarrow>
                  Inr (map (\<lambda>r. (r, score senv v r))
                        (take lim
                          (sort_key (score senv v)
                            (filter (\<lambda>r. title_vector r \<noteq> None \<and> inc_id r \<noteq> incidentId)
                               (table w)))))))"

section \<open>Vocabulary for the statements about the cache and the provider\<close>

text \<open>
  The cache entry of a text, and the positions of the texts of a list that have none.
\<close>

definition cachedVector :: "env \<Rightarrow> world \<Rightarrow> jsstring \<Rightarrow> vector option" where
  "cachedVector env w t = embeddingCache w (createCacheKey env t)"

definition uncachedAt :: "env \<Rightarrow> world \<Rightarrow> jsstring list \<Rightarrow> nat list" where
  "uncachedAt env w ts = filter (\<lambda>j. cachedVector env w (ts ! j) = None) [0..<length ts]"

text \<open>
  Two states with the same table and the same number of updates issued to the store.
\<close>

definition sameStore :: "world \<Rightarrow> world \<Rightarrow> bool" where
  "sameStore w w' = (table w' = table w \<and> update_calls w' = update_calls w)"

text \<open>
  A provider that, whenever it answers a request, returns one vector for every input
  of the request, as the API documents it. It may still throw. No provider at all is
  well behaved.
\<close>

definition wellBehaved :: "env \<Rightarrow> bool" where
  "wellBehaved env =
     (case openai env of
        None \<Rightarrow> True
      | Some api \<Rightarrow> \<forall>n inputs data. api n inputs = Inr data \<longrightarrow> length data = length inputs)"

text \<open>
  The answers of the provider to one call of \<^verbatim>\<open>generateBatchEmbeddings\<close>: the
  uncached texts are sent in chunks of 100, the first chunk as request number \<open>n\<close> of
  the process. The value is the vectors of all chunks in order when every request is
  answered with one vector per input, and \<open>None\<close> when a request throws or is
  answered with another number of vectors.
\<close>

function remoteVectors ::
  "(nat \<Rightarrow> jsstring list \<Rightarrow> error + vector list) \<Rightarrow> nat \<Rightarrow> jsstring list \<Rightarrow> vector list option" where
  "remoteVectors api n uncachedTexts =
     (if uncachedTexts = [] then Some []
      else
        (case api n (take 100 uncachedTexts) of
           Inl e \<Rightarrow> None
         | Inr data \<Rightarrow>
             if length data = length (take 100 uncachedTexts)
             then map_option (\<lambda>rest. data @ rest)
                    (remoteVectors api (n + 1) (drop 100 uncachedTexts))
             else None))"
  by pat_completeness auto
termination
  by (relation "measure (\<lambda>(api, n, uncachedTexts). length uncachedTexts)") auto

declare remoteVectors.simps [simp del]



section \<open>Concrete inputs\<close>

text \<open>
  A process without API key, with ASCII lower-casing and a store that accepts every
  update; and a fresh state: empty cache, empty table.
\<close>

definition env0 :: env where
  "env0 = \<lparr>toLowerCase = asciiLower, openai = None, update_rejects = (\<lambda>n. False)\<rparr>"

definition w0 :: world where
  "w0 = \<lparr>embeddingCache = Map.empty, remote_calls = 0, mock_calls = 0, table = [],
          update_calls = 0\<rparr>"

text \<open>
  A text of 8192 code units: 1023 times \<open>f5a5a608\<close>, then \<open>zsjpxag!\<close>. Its hash is 2;
  the hash of its first 8191 code units is 1.
\<close>

definition longText :: jsstring where
  "longText = concat (replicate 1023 (utf16 ''f5a5a608'')) @ utf16 ''zsjpxag!''"







definition rowA :: incident where
  "rowA = \<lparr>inc_id = ''A'', title = utf16 ''a'', description = None, category = None,
            datetime = ''2024-06-01T10:00:00.000Z'', title_vector = None,
            description_vector = None\<rparr>"

definition rowB :: incident where
  "rowB = \<lparr>inc_id = ''B'', title = utf16 ''a'', description = None, category = None,
            datetime = ''2024-06-02T10:00:00.000Z'', title_vector = None,
            description_vector = None\<rparr>"

definition rowDone :: incident where
  "rowDone = \<lparr>inc_id = ''D'', title = utf16 ''d'', description = Some (utf16 ''d''),
               category = None, datetime = ''2024-06-03T10:00:00.000Z'',
               title_vector = Some [Num 1, Num 0], description_vector = Some [Num 0, Num 1]\<rparr>"

definition envRejectFirst :: env where
  "envRejectFirst = \<lparr>toLowerCase = asciiLower, openai = None, update_rejects = (\<lambda>n. n = 0)\<rparr>"

definition wAB :: world where
  "wAB = \<lparr>embeddingCache = Map.empty, remote_calls = 0, mock_calls = 0,
           table = [rowA, rowB], update_calls = 0\<rparr>"

definition wAB1 :: world where
  "wAB1 = wAB\<lparr>mock_calls := 1, update_calls := 1\<rparr>"

definition rowB1 :: incident where
  "rowB1 = rowB\<lparr>title_vector := Some (generateMockEmbedding (utf16 ''a''))\<rparr>"

definition wAB2 :: world where
  "wAB2 = wAB\<lparr>mock_calls := 2, update_calls := 2, table := [rowA, rowB1]\<rparr>"

text \<open>
  Cosine distance of two vectors of finite numbers, \<open>1 - a \<sqdot> b / (|a| |b|)\<close>, as the
  distance of the concrete search environment.
\<close>

definition cosineDistance :: "vector \<Rightarrow> vector \<Rightarrow> real" where
  "cosineDistance a b =
     (case (finiteParts a, finiteParts b) of
        (Some x, Some y) \<Rightarrow>
          1 - sum_list (map (\<lambda>(p, q). p * q) (zip x y)) / (magnitude x * magnitude y)
      | _ \<Rightarrow> 0)"

text \<open>Comparison of two strings code unit by code unit, as a store with a byte-wise collation does it.\<close>

fun lexLe :: "string \<Rightarrow> string \<Rightarrow> bool" where
  "lexLe [] ys = True"
| "lexLe (x # xs) [] = False"
| "lexLe (x # xs) (y # ys) =
     ((of_char x :: nat) < of_char y \<or> (x = y \<and> lexLe xs ys))"

definition senv0 :: search_env where
  "senv0 = \<lparr>distance = cosineDistance, dateLe = lexLe,
            yesterday = ''2024-06-01T00:00:00.000Z'',
            tomorrow = ''2024-06-03T23:59:59.999Z'',
            toISOString = (\<lambda>s. Some s)\<rparr>"

definition rowNear :: incident where
  "rowNear = \<lparr>inc_id = ''N'', title = utf16 ''robbery near station'', description = None,
              category = Some ''robbery'', datetime = ''2024-06-02T10:00:00.000Z'',
              title_vector = Some [Num 1, Num 0], description_vector = None\<rparr>"

definition rowFar :: incident where
  "rowFar = \<lparr>inc_id = ''F'', title = utf16 ''road closure'', description = None,
              category = Some ''tfl'', datetime = ''2024-06-02T12:00:00.000Z'',
              title_vector = Some [Num 0, Num 1], description_vector = None\<rparr>"

definition rowMid :: incident where
  "rowMid = \<lparr>inc_id = ''M'', title = utf16 ''theft near station'', description = None,
              category = Some ''theft'', datetime = ''2024-06-02T11:00:00.000Z'',
              title_vector = Some [Num 3, Num 4], description_vector = None\<rparr>"

definition rowBare :: incident where
  "rowBare = \<lparr>inc_id = ''X'', title = utf16 ''no vector yet'', description = None,
              category = None, datetime = ''2024-06-02T13:00:00.000Z'',
              title_vector = None, description_vector = None\<rparr>"

definition wSearch :: world where
  "wSearch = \<lparr>embeddingCache = Map.empty, remote_calls = 0, mock_calls = 0,
               table = [rowFar, rowMid, rowNear, rowBare], update_calls = 0\<rparr>"

definition thresholdZero :: filters where
  "thresholdZero = \<lparr>categories = None, startDate = None, endDate = None,
                     similarityThreshold = Some 0\<rparr>"

text \<open>
  Vocabulary for the statements about the backfill: a row has the vector of a field;
  all rows with a given id have it; a table keeps its rows' ids and loses no vector;
  and every missing vector of a record has a non-blank text to be made from.
\<close>

definition hasVector :: "field \<Rightarrow> incident \<Rightarrow> bool" where
  "hasVector f r =
     (case f of TitleVector \<Rightarrow> title_vector r \<noteq> None
              | DescriptionVector \<Rightarrow> description_vector r \<noteq> None)"

definition covered :: "field \<Rightarrow> string \<Rightarrow> incident list \<Rightarrow> bool" where
  "covered f ident t = list_all (\<lambda>r. inc_id r \<noteq> ident \<or> hasVector f r) t"

definition grows :: "incident list \<Rightarrow> incident list \<Rightarrow> bool" where
  "grows t t' =
     list_all2 (\<lambda>r r'. inc_id r' = inc_id r
                  \<and> (hasVector TitleVector r' \<or> \<not> hasVector TitleVector r)
                  \<and> (hasVector DescriptionVector r' \<or> \<not> hasVector DescriptionVector r)) t t'"

definition embeddable :: "incident \<Rightarrow> bool" where
  "embeddable inc =
     ((title_vector inc \<noteq> None \<or> nonBlank (title inc))
      \<and> (description_vector inc \<noteq> None
           \<or> (case description inc of None \<Rightarrow> False | Some d \<Rightarrow> nonBlank d)))"

definition rowA1 :: incident where
  "rowA1 = rowA\<lparr>title_vector := Some (generateMockEmbedding (utf16 ''a''))\<rparr>"

definition wOne :: world where
  "wOne = \<lparr>embeddingCache = Map.empty, remote_calls = 0, mock_calls = 0, table = [rowA],
            update_calls = 0\<rparr>"

definition wOne1 :: world where
  "wOne1 = \<lparr>embeddingCache = Map.empty, remote_calls = 0, mock_calls = 1, table = [rowA1],
             update_calls = 1\<rparr>"

definition rowFull :: incident where
  "rowFull = \<lparr>inc_id = ''C'', title = utf16 ''Camden burglary'',
               description = Some (utf16 ''robbery near station''), category = Some ''burglary'',
               datetime = ''2024-06-02T09:00:00.000Z'', title_vector = None,
               description_vector = None\<rparr>"

definition wTwo :: world where
  "wTwo = \<lparr>embeddingCache = Map.empty, remote_calls = 0, mock_calls = 0,
            table = [rowFull, rowDone], update_calls = 0\<rparr>"

section \<open>Facts about the hash and the fallback generator\<close>

lemma hashStep_mult: "hashStep h c = 31 * h + ucast c"
  by (simp add: hashStep_def push_bit_eq_mult)

lemma simpleHash_f5a5a608: "simpleHash (utf16 ''f5a5a608'') = 0"
  by (simp add: simpleHash_def hashStep_mult utf16_def)

lemma length_mockComponents: "length (mockComponents h) = 384"
  by (simp add: mockComponents_def)

lemma length_generateMockEmbedding: "length (generateMockEmbedding t) = 384"
  by (simp add: generateMockEmbedding_def Let_def length_mockComponents)

lemma foldl_squares: "foldl (\<lambda>sum val. sum + val * val) a xs = a + (\<Sum>x\<leftarrow>xs. x * x)"
  for xs :: "real list"
  by (induction xs arbitrary: a) (simp_all add: add.assoc)

lemma magnitude_sum_list: "magnitude xs = sqrt (\<Sum>x\<leftarrow>xs. x * x)"
  by (simp add: magnitude_def foldl_squares)

lemma sum_squares_nonneg: "0 \<le> (\<Sum>x\<leftarrow>xs. x * x)" for xs :: "real list"
  by (induction xs) simp_all

lemma sum_squares_zero_iff: "(\<Sum>x\<leftarrow>xs. x * x) = 0 \<longleftrightarrow> (\<forall>x \<in> set xs. x = 0)"
  for xs :: "real list"
proof (induction xs)
  case Nil
  show ?case by simp
next
  case (Cons a xs)
  have "0 \<le> a * a" by simp
  moreover have "0 \<le> (\<Sum>x\<leftarrow>xs. x * x)" by (rule sum_squares_nonneg)
  ultimately have "a * a + (\<Sum>x\<leftarrow>xs. x * x) = 0 \<longleftrightarrow> a * a = 0 \<and> (\<Sum>x\<leftarrow>xs. x * x) = 0"
    by (rule add_nonneg_eq_0_iff)
  with Cons show ?case by simp
qed

lemma magnitude_zero_iff: "magnitude xs = 0 \<longleftrightarrow> (\<forall>x \<in> set xs. x = 0)"
  by (simp add: magnitude_sum_list sum_squares_zero_iff)

lemma mockComponents_zero: "mockComponents 0 = replicate 384 0"
  by (simp add: mockComponents_def map_replicate_const)

lemma generateMockEmbedding_hash_zero:
  assumes "simpleHash t = 0"
  shows "generateMockEmbedding t = replicate 384 NaN"
proof -
  have "magnitude (replicate 384 0) = 0"
    by (simp add: magnitude_zero_iff)
  then show ?thesis
    using assms by (simp add: generateMockEmbedding_def mockComponents_zero js_div_def)
qed

section \<open>Signs of some sines\<close>

lemma cos_one_pos: "0 < cos (1::real)"
proof -
  have s: "0 \<le> sin (1/2 :: real)" "sin (1/2 :: real) \<le> 1/2"
    using sin_gt_zero_02 [of "1/2"] sin_x_le_x [of "1/2"] by simp_all
  then have "sin (1/2 :: real) ^ 2 \<le> (1/2) ^ 2"
    by (intro power_mono) simp_all
  moreover have "cos (1::real) = 1 - 2 * sin (1/2) ^ 2"
    using cos_double_sin [of "1/2 :: real"] by simp
  ultimately show ?thesis by (simp add: power2_eq_square)
qed

lemma sin_two_pos: "0 < sin (2::real)"
proof -
  have "sin (2::real) = 2 * sin 1 * cos 1"
    using sin_double [of "1::real"] by simp
  moreover have "0 < sin (1::real)"
    by (rule sin_gt_zero_02) simp_all
  ultimately show ?thesis using cos_one_pos by simp
qed

lemma sin_four_neg: "sin (4::real) < 0"
proof -
  have "sin (4::real) = 2 * sin 2 * cos 2"
    using sin_double [of "2::real"] by simp
  then show ?thesis
    using sin_two_pos cos_two_less_zero by (simp add: mult_pos_neg)
qed

lemma hashStep_fun: "hashStep = (\<lambda>h c. 31 * h + ucast c)"
  by (intro ext) (rule hashStep_mult)

lemma hash_append:
  "foldl hashStep h (xs @ ys) = 31 ^ length ys * foldl hashStep h xs + foldl hashStep 0 ys"
  unfolding hashStep_fun
  by (induction ys arbitrary: xs rule: rev_induct) (simp_all add: algebra_simps flip: append_assoc)

lemma hash_concat_replicate:
  assumes "foldl hashStep 0 z = 0"
  shows "foldl hashStep 0 (concat (replicate n z)) = 0"
  by (induction n) (simp_all add: hash_append assms)

lemma length_concat_replicate: "length (concat (replicate n z)) = n * length z"
  by (induction n) simp_all

lemma substring_longText:
  "substring0 8191 longText = concat (replicate 1023 (utf16 ''f5a5a608'')) @ utf16 ''zsjpxag''"
  by (simp add: substring0_def longText_def length_concat_replicate utf16_def)

lemma f5_zero: "foldl hashStep 0 (utf16 ''f5a5a608'') = 0"
  by (simp add: hashStep_mult utf16_def)

lemma simpleHash_longText: "simpleHash longText = 2"
  by (simp add: simpleHash_def longText_def hash_append hash_concat_replicate f5_zero)
   (simp add: utf16_def hashStep_mult)

lemma simpleHash_longText_cut: "simpleHash (substring0 8191 longText) = 1"
  by (simp add: simpleHash_def substring_longText hash_append hash_concat_replicate f5_zero)
   (simp add: utf16_def hashStep_mult)


lemma magnitude_nonneg: "0 \<le> magnitude xs"
  by (simp add: magnitude_sum_list sum_squares_nonneg)

lemma generateMockEmbedding_nth:
  assumes "i < 384"
  shows "generateMockEmbedding t ! i =
           js_div (sin (real (simpleHash t * (i + 1))) * 0.5)
                  (magnitude (mockComponents (simpleHash t)))"
  using assms by (simp add: generateMockEmbedding_def Let_def mockComponents_def)

lemma mockComponents_member:
  assumes "i < 384"
  shows "sin (real (h * (i + 1))) * 0.5 \<in> set (mockComponents h)"
proof -
  have "i \<in> set [0..<384]" using assms by simp
  then show ?thesis unfolding mockComponents_def set_map by (rule imageI)
qed

lemma magnitude_mock_pos:
  assumes "i < 384" and "sin (real (h * (i + 1))) \<noteq> 0"
  shows "0 < magnitude (mockComponents h)"
proof -
  have "sin (real (h * (i + 1))) * 0.5 \<noteq> 0"
    using assms(2) by simp
  then have "\<exists>x \<in> set (mockComponents h). x \<noteq> 0"
    using mockComponents_member [OF assms(1), of h] by blast
  then have "magnitude (mockComponents h) \<noteq> 0"
    by (simp add: magnitude_zero_iff)
  then show ?thesis using magnitude_nonneg [of "mockComponents h"] by simp
qed

lemma sum_squares_scaled:
  "(\<Sum>x\<leftarrow>map (\<lambda>val. val / m) xs. x * x) = (\<Sum>x\<leftarrow>xs. x * x) / (m * m)"
  for xs :: "real list"
  by (induction xs) (simp_all add: add_divide_distrib)

lemma l2norm_normalised:
  assumes "magnitude xs \<noteq> 0"
  shows "l2norm (map (\<lambda>val. js_div val (magnitude xs)) xs) = Num 1"
proof -
  let ?m = "magnitude xs"
  have m: "0 < ?m" using assms magnitude_nonneg [of xs] by simp
  have v: "map (\<lambda>val. js_div val ?m) xs = map (\<lambda>val. Num (val / ?m)) xs"
    using assms by (simp add: js_div_def)
  have fp: "finiteParts (map (\<lambda>val. Num (val / ?m)) xs) = Some (map (\<lambda>val. val / ?m) xs)"
    by (simp add: finiteParts_def list_all_iff comp_def)
  have "(\<Sum>x\<leftarrow>map (\<lambda>val. val / ?m) xs. x * x) = (\<Sum>x\<leftarrow>xs. x * x) / (?m * ?m)"
    by (rule sum_squares_scaled)
  also have "?m * ?m = (\<Sum>x\<leftarrow>xs. x * x)"
    using sum_squares_nonneg [of xs] by (simp add: magnitude_sum_list)
  finally have "(\<Sum>x\<leftarrow>map (\<lambda>val. val / ?m) xs. x * x) = 1"
    using m by (simp add: magnitude_sum_list)
  then have "magnitude (map (\<lambda>val. val / ?m) xs) = 1"
    by (simp add: magnitude_sum_list)
  moreover have "NaN \<notin> set (map (\<lambda>val. Num (val / ?m)) xs)"
    by auto
  ultimately show ?thesis
    unfolding v l2norm_def fp by simp
qed

lemma generateMockEmbedding_unit:
  assumes "magnitude (mockComponents (simpleHash t)) \<noteq> 0"
  shows "unitNorm (generateMockEmbedding t)"
  using l2norm_normalised [OF assms]
  by (simp add: unitNorm_def generateMockEmbedding_def Let_def)

lemma l2norm_all_NaN: "0 < n \<Longrightarrow> l2norm (replicate n NaN) = NaN"
  by (simp add: l2norm_def)

lemma mock_differ:
  "generateMockEmbedding longText \<noteq> generateMockEmbedding (substring0 8191 longText)"
proof -
  have m1: "0 < magnitude (mockComponents 1)"
    using magnitude_mock_pos [of 1 1] sin_two_pos by simp
  have m2: "0 < magnitude (mockComponents 2)"
    using magnitude_mock_pos [of 0 2] sin_two_pos by simp
  have a: "generateMockEmbedding longText ! 1 =
             Num (sin 4 * 0.5 / magnitude (mockComponents 2))"
    using m2 by (simp add: generateMockEmbedding_nth simpleHash_longText js_div_def)
  have b: "generateMockEmbedding (substring0 8191 longText) ! 1 =
             Num (sin 2 * 0.5 / magnitude (mockComponents 1))"
    using m1 by (simp add: generateMockEmbedding_nth simpleHash_longText_cut js_div_def)
  have "sin 4 * 0.5 / magnitude (mockComponents 2) < 0"
    using m2 sin_four_neg by (simp add: divide_neg_pos)
  moreover have "0 < sin 2 * 0.5 / magnitude (mockComponents 1)"
    using m1 sin_two_pos by simp
  ultimately have "generateMockEmbedding longText ! 1
                     \<noteq> generateMockEmbedding (substring0 8191 longText) ! 1"
    unfolding a b by simp
  then show ?thesis by auto
qed

section \<open>Facts about blank texts and the single-text path\<close>

lemma trim_Nil_iff: "trim s = [] \<longleftrightarrow> (\<forall>c \<in> set s. isWhiteSpace c)"
proof
  assume "trim s = []"
  then have "\<forall>c \<in> set (dropWhile isWhiteSpace s). isWhiteSpace c"
    by (simp add: trim_def dropWhile_eq_Nil_conv)
  then have "dropWhile isWhiteSpace s = []"
    by (metis hd_dropWhile hd_in_set)
  then show "\<forall>c \<in> set s. isWhiteSpace c"
    by (simp add: dropWhile_eq_Nil_conv)
next
  assume "\<forall>c \<in> set s. isWhiteSpace c"
  then show "trim s = []"
    by (auto simp: trim_def dest: set_dropWhileD)
qed

lemma nonBlank_iff: "nonBlank s \<longleftrightarrow> (\<exists>c \<in> set s. \<not> isWhiteSpace c)"
  by (auto simp: nonBlank_def trim_Nil_iff)

lemma nonBlank_longText: "nonBlank longText"
proof -
  have "0x21 \<in> set longText" by (simp add: longText_def utf16_def)
  moreover have "\<not> isWhiteSpace 0x21" by (simp add: isWhiteSpace_def)
  ultimately show ?thesis unfolding nonBlank_iff by blast
qed

lemma generateEmbedding_blank: "\<not> nonBlank t \<Longrightarrow> generateEmbedding env t w = (None, w)"
  by (simp add: generateEmbedding_def)

lemma generateEmbedding_cached:
  assumes "nonBlank t" and "embeddingCache w (createCacheKey env t) = Some v"
  shows "generateEmbedding env t w = (Some v, w)"
  using assms by (simp add: generateEmbedding_def)

lemma generateEmbedding_fallback:
  assumes "nonBlank t" and "embeddingCache w (createCacheKey env t) = None"
    and "openai env = None"
  shows "generateEmbedding env t w =
           (Some (generateMockEmbedding t), w\<lparr>mock_calls := mock_calls w + 1\<rparr>)"
  using assms by (simp add: generateEmbedding_def mockResult_def callMock_def)


section \<open>Facts about the batch path\<close>

lemma cacheCheck_snoc:
  "cacheCheck env w (ts @ [t]) i acc =
     (case cacheCheck env w ts i acc of
        (rs, ui, ut) \<Rightarrow>
          (case cachedVector env w t of
             Some v \<Rightarrow> (rs[i + length ts := Some v], ui, ut)
           | None \<Rightarrow> (rs, ui @ [i + length ts], ut @ [substring0 8191 t])))"
proof (induction ts arbitrary: i acc)
  case Nil
  show ?case by (cases acc) (simp add: cachedVector_def split: option.splits)
next
  case (Cons a ts)
  show ?case
    by (cases acc) (simp add: Cons split: option.splits cong: option.case_cong prod.case_cong)
qed

lemma uncachedAt_snoc:
  "uncachedAt env w (ts @ [t]) =
     uncachedAt env w ts @ (if cachedVector env w t = None then [length ts] else [])"
proof -
  have "filter (\<lambda>j. cachedVector env w ((ts @ [t]) ! j) = None) [0..<length ts]
          = filter (\<lambda>j. cachedVector env w (ts ! j) = None) [0..<length ts]"
    by (rule filter_cong) (simp_all add: nth_append)
  then show ?thesis by (simp add: uncachedAt_def)
qed

lemma uncachedAt_less: "j \<in> set (uncachedAt env w ts) \<Longrightarrow> j < length ts"
  by (simp add: uncachedAt_def)

lemma uncachedAt_iff:
  "j \<in> set (uncachedAt env w ts) \<longleftrightarrow> j < length ts \<and> cachedVector env w (ts ! j) = None"
  by (auto simp: uncachedAt_def)

lemma cacheCheck_closed:
  assumes "length ts \<le> N"
  shows "cacheCheck env w ts 0 (replicate N None, [], []) =
           (map (cachedVector env w) ts @ replicate (N - length ts) None,
            uncachedAt env w ts,
            map (\<lambda>j. substring0 8191 (ts ! j)) (uncachedAt env w ts))"
  using assms
proof (induction ts rule: rev_induct)
  case Nil
  show ?case by (simp add: uncachedAt_def)
next
  case (snoc t ts)
  let ?n = "length ts"
  have n: "?n < N" using snoc.prems by simp
  have ih: "cacheCheck env w ts 0 (replicate N None, [], []) =
           (map (cachedVector env w) ts @ replicate (N - ?n) None,
            uncachedAt env w ts,
            map (\<lambda>j. substring0 8191 (ts ! j)) (uncachedAt env w ts))"
    using snoc by simp
  have rep: "replicate (N - ?n) (None :: vector option) = None # replicate (N - Suc ?n) None"
    using n by (metis Suc_diff_Suc replicate_Suc)
  have m: "map (\<lambda>j. substring0 8191 ((ts @ [t]) ! j)) (uncachedAt env w ts)
             = map (\<lambda>j. substring0 8191 (ts ! j)) (uncachedAt env w ts)"
    by (rule map_cong) (auto simp: nth_append dest: uncachedAt_less)
  show ?case
  proof (cases "cachedVector env w t")
    case None
    then show ?thesis
      by (simp add: cacheCheck_snoc ih uncachedAt_snoc m rep)
  next
    case (Some v)
    have "(map (cachedVector env w) ts @ replicate (N - ?n) None)[?n := Some v]
            = map (cachedVector env w) ts @ Some v # replicate (N - Suc ?n) None"
      by (simp add: list_update_append rep)
    then show ?thesis
      using Some by (simp add: cacheCheck_snoc ih uncachedAt_snoc m)
  qed
qed

lemma mockFill_closed:
  "mockFill J (map f J) (rs, w) =
     (map (\<lambda>k. if k \<in> set J then Some (generateMockEmbedding (f k)) else rs ! k) [0..<length rs],
      w\<lparr>mock_calls := mock_calls w + length J\<rparr>)"
proof (induction J rule: rev_induct)
  case Nil
  show ?case by (simp add: mockFill_def map_nth)
next
  case (snoc j J)
  have z: "zip (J @ [j]) (map f (J @ [j])) = zip J (map f J) @ [(j, f j)]"
    by simp
  have u: "(map (\<lambda>k. if k \<in> set J then Some (generateMockEmbedding (f k)) else rs ! k)
              [0..<length rs])[j := Some (generateMockEmbedding (f j))]
           = map (\<lambda>k. if k \<in> set (J @ [j]) then Some (generateMockEmbedding (f k)) else rs ! k)
              [0..<length rs]"
    by (rule nth_equalityI) (simp, rename_tac i, case_tac "i = j", simp_all)
  show ?case
    unfolding mockFill_def z foldl_append
    using snoc [unfolded mockFill_def] by (simp add: callMock_def u)
qed

lemma batch_fallback:
  assumes "openai env = None"
  shows "generateBatchEmbeddings env texts w =
           (map (\<lambda>t. Some (case cachedVector env w t of
                              Some v \<Rightarrow> v
                            | None \<Rightarrow> generateMockEmbedding (substring0 8191 t)))
                (filter nonBlank texts),
            w\<lparr>mock_calls := mock_calls w + length (uncachedAt env w (filter nonBlank texts))\<rparr>)"
proof -
  let ?ts = "filter nonBlank texts"
  let ?U = "uncachedAt env w ?ts"
  let ?f = "\<lambda>j. substring0 8191 (?ts ! j)"
  have start: "batchStart env texts w = (?ts, map (cachedVector env w) ?ts, ?U, map ?f ?U)"
    by (simp add: batchStart_def Let_def cacheCheck_closed)
  have fin: "map (\<lambda>k. if k \<in> set ?U then Some (generateMockEmbedding (?f k))
                       else map (cachedVector env w) ?ts ! k) [0..<length ?ts]
             = map (\<lambda>t. Some (case cachedVector env w t of
                               Some v \<Rightarrow> v
                             | None \<Rightarrow> generateMockEmbedding (substring0 8191 t))) ?ts"
    by (rule nth_equalityI) (auto simp: uncachedAt_iff split: option.splits)
  show ?thesis
  proof (cases "?U = []")
    case True
    then have "\<forall>j < length ?ts. cachedVector env w (?ts ! j) \<noteq> None"
      using uncachedAt_iff [of _ env w ?ts] by auto
    then have "map (cachedVector env w) ?ts = map (\<lambda>t. Some (case cachedVector env w t of
                               Some v \<Rightarrow> v
                             | None \<Rightarrow> generateMockEmbedding (substring0 8191 t))) ?ts"
      by (intro nth_equalityI) (auto split: option.splits)
    then show ?thesis
      using True by (simp add: generateBatchEmbeddings_def start batchFinish_def)
  next
    case False
    then have ne: "?ts \<noteq> []" by (auto simp: uncachedAt_def)
    show ?thesis
      using False ne assms
      by (simp add: generateBatchEmbeddings_def start batchFinish_def mockFill_closed fin)
  qed
qed

section \<open>Facts about the requests to the provider\<close>

lemma sameStore_refl [simp]: "sameStore w w"
  by (simp add: sameStore_def)

lemma sameStore_trans: "sameStore w w1 \<Longrightarrow> sameStore w1 w2 \<Longrightarrow> sameStore w w2"
  by (simp add: sameStore_def)

lemma storeResponse_length:
  "storeResponse env vt data bi (rs, w) = (eo, rs', w') \<Longrightarrow> length rs' = length rs"
  by (induction env vt data bi "(rs, w)" arbitrary: rs w rule: storeResponse.induct) auto

lemma storeResponse_frame:
  "storeResponse env vt data bi (rs, w) = (eo, rs', w') \<Longrightarrow>
     sameStore w w' \<and> (\<forall>k < length rs. rs ! k \<noteq> None \<longrightarrow> rs' ! k \<noteq> None)"
proof (induction env vt data bi "(rs, w)" arbitrary: rs w rule: storeResponse.induct)
  case (1 env vt bi rs w)
  then show ?case by simp
next
  case (2 env vt e data rs w)
  then show ?case by simp
next
  case (3 env vt e data ix bi rs w)
  let ?w1 = "w\<lparr>embeddingCache := (embeddingCache w)(createCacheKey env (vt ! ix) \<mapsto> e)\<rparr>"
  have ih: "sameStore ?w1 w' \<and> (\<forall>k < length (rs[ix := Some e]).
              rs[ix := Some e] ! k \<noteq> None \<longrightarrow> rs' ! k \<noteq> None)"
    using 3 by simp
  have "rs[ix := Some e] ! k \<noteq> None" if "k < length rs" "rs ! k \<noteq> None" for k
    using that by (cases "k = ix") simp_all
  with ih show ?case by (simp add: sameStore_def)
qed

lemma storeResponse_complete:
  assumes "storeResponse env vt data bi (rs, w) = (eo, rs', w')"
    and "length data = length bi"
  shows "eo = None \<and> (\<forall>k \<in> set bi. k < length rs \<longrightarrow> rs' ! k \<noteq> None)"
  using assms
proof (induction env vt data bi "(rs, w)" arbitrary: rs w rule: storeResponse.induct)
  case (1 env vt bi rs w)
  then show ?case by simp
next
  case (2 env vt e data rs w)
  then show ?case by simp
next
  case (3 env vt e data ix bi rs w)
  let ?w1 = "w\<lparr>embeddingCache := (embeddingCache w)(createCacheKey env (vt ! ix) \<mapsto> e)\<rparr>"
  have run: "storeResponse env vt data bi (rs[ix := Some e], ?w1) = (eo, rs', w')"
    using "3.prems" by simp
  have ih: "eo = None \<and> (\<forall>k \<in> set bi. k < length (rs[ix := Some e]) \<longrightarrow> rs' ! k \<noteq> None)"
    using "3.hyps" [OF run] "3.prems" by simp
  have "ix < length rs \<longrightarrow> rs' ! ix \<noteq> None"
    using storeResponse_frame [OF run] by simp
  with ih show ?case by auto
qed

lemma remoteLoop_length:
  "remoteLoop env api vt ui ut i (rs, w) = (eo, rs', w') \<Longrightarrow> length rs' = length rs"
proof (induction env api vt ui ut i "(rs, w)" arbitrary: rs w rule: remoteLoop.induct)
  case (1 env api vt ui ut i rs w)
  note unf = remoteLoop.simps [of env api vt ui ut i rs w]
  show ?case
  proof (cases "i < length ut")
    case False
    with "1.prems" show ?thesis by (simp add: unf)
  next
    case True
    obtain r w1 where cr: "callRemote api (take 100 (drop i ut)) w = (r, w1)"
      by (cases "callRemote api (take 100 (drop i ut)) w")
    show ?thesis
    proof (cases r)
      case (Inl e)
      with "1.prems" True cr show ?thesis by (simp add: unf Let_def)
    next
      case (Inr data)
      obtain eo1 rs1 w2 where sr:
        "storeResponse env vt data (take 100 (drop i ui)) (rs, w1) = (eo1, rs1, w2)"
        by (cases "storeResponse env vt data (take 100 (drop i ui)) (rs, w1)")
      have l1: "length rs1 = length rs" using sr by (rule storeResponse_length)
      show ?thesis
      proof (cases eo1)
        case (Some e)
        with "1.prems" True cr Inr sr l1 show ?thesis by (simp add: unf Let_def)
      next
        case None
        have "remoteLoop env api vt ui ut (i + 100) (rs1, w2) = (eo, rs', w')"
          using "1.prems" True cr Inr sr None by (simp add: unf Let_def)
        then have "length rs' = length rs1"
          using "1.hyps" True cr Inr sr None by simp
        with l1 show ?thesis by simp
      qed
    qed
  qed
qed

lemma callRemote_frame: "callRemote api xs w = (r, w1) \<Longrightarrow> sameStore w w1"
  by (auto simp: callRemote_def sameStore_def)

lemma remoteLoop_frame:
  "remoteLoop env api vt ui ut i (rs, w) = (eo, rs', w') \<Longrightarrow>
     sameStore w w' \<and> (\<forall>k < length rs. rs ! k \<noteq> None \<longrightarrow> rs' ! k \<noteq> None)"
proof (induction env api vt ui ut i "(rs, w)" arbitrary: rs w rule: remoteLoop.induct)
  case (1 env api vt ui ut i rs w)
  note unf = remoteLoop.simps [of env api vt ui ut i rs w]
  show ?case
  proof (cases "i < length ut")
    case False
    with "1.prems" show ?thesis by (simp add: unf)
  next
    case True
    obtain r w1 where cr: "callRemote api (take 100 (drop i ut)) w = (r, w1)"
      by (cases "callRemote api (take 100 (drop i ut)) w")
    note f1 = callRemote_frame [OF cr]
    show ?thesis
    proof (cases r)
      case (Inl e)
      with "1.prems" True cr f1 show ?thesis by (auto simp: unf Let_def)
    next
      case (Inr data)
      obtain eo1 rs1 w2 where sr:
        "storeResponse env vt data (take 100 (drop i ui)) (rs, w1) = (eo1, rs1, w2)"
        by (cases "storeResponse env vt data (take 100 (drop i ui)) (rs, w1)")
      note l1 = storeResponse_length [OF sr]
      note f2 = storeResponse_frame [OF sr]
      show ?thesis
      proof (cases eo1)
        case (Some e)
        with "1.prems" True cr Inr sr have "rs' = rs1" "w' = w2"
          by (simp_all add: unf Let_def)
        with f1 f2 show ?thesis by (auto intro: sameStore_trans)
      next
        case None
        have "remoteLoop env api vt ui ut (i + 100) (rs1, w2) = (eo, rs', w')"
          using "1.prems" True cr Inr sr None by (simp add: unf Let_def)
        then have "sameStore w2 w' \<and> (\<forall>k < length rs1. rs1 ! k \<noteq> None \<longrightarrow> rs' ! k \<noteq> None)"
          using "1.hyps" True cr Inr sr None by simp
        with f1 f2 l1 show ?thesis by (auto intro: sameStore_trans)
      qed
    qed
  qed
qed

lemma remoteLoop_complete:
  assumes "remoteLoop env api vt ui ut i (rs, w) = (None, rs', w')"
    and "length ui = length ut"
    and "\<forall>n inputs data. api n inputs = Inr data \<longrightarrow> length data = length inputs"
  shows "\<forall>k \<in> set (drop i ui). k < length rs \<longrightarrow> rs' ! k \<noteq> None"
  using assms
proof (induction env api vt ui ut i "(rs, w)" arbitrary: rs w rule: remoteLoop.induct)
  case (1 env api vt ui ut i rs w)
  note unf = remoteLoop.simps [of env api vt ui ut i rs w]
  show ?case
  proof (cases "i < length ut")
    case False
    with "1.prems" show ?thesis by simp
  next
    case True
    obtain r w1 where cr: "callRemote api (take 100 (drop i ut)) w = (r, w1)"
      by (cases "callRemote api (take 100 (drop i ut)) w")
    show ?thesis
    proof (cases r)
      case (Inl e)
      with "1.prems" True cr show ?thesis by (simp add: unf Let_def)
    next
      case (Inr data)
      have ld: "length data = length (take 100 (drop i ui))"
        using cr Inr "1.prems"(2,3) by (auto simp: callRemote_def)
      obtain eo1 rs1 w2 where sr:
        "storeResponse env vt data (take 100 (drop i ui)) (rs, w1) = (eo1, rs1, w2)"
        by (cases "storeResponse env vt data (take 100 (drop i ui)) (rs, w1)")
      note l1 = storeResponse_length [OF sr]
      note c1 = storeResponse_complete [OF sr ld]
      then have None: "eo1 = None" by simp
      have run: "remoteLoop env api vt ui ut (i + 100) (rs1, w2) = (None, rs', w')"
        using "1.prems"(1) True cr Inr sr None by (simp add: unf Let_def)
      have later: "\<forall>k \<in> set (drop (i + 100) ui). k < length rs1 \<longrightarrow> rs' ! k \<noteq> None"
        using "1.hyps" [OF True refl refl cr [symmetric] Inr sr [symmetric] None refl run]
          "1.prems"(2,3) by simp
      have keep: "\<forall>k < length rs1. rs1 ! k \<noteq> None \<longrightarrow> rs' ! k \<noteq> None"
        using remoteLoop_frame [OF run] by simp
      have split: "set (drop i ui) = set (take 100 (drop i ui)) \<union> set (drop (i + 100) ui)"
        by (metis append_take_drop_id drop_drop set_append add.commute)
      show ?thesis
        unfolding split using c1 later keep l1 by auto
    qed
  qed
qed

lemma batchStart_closed:
  "batchStart env texts w =
     (filter nonBlank texts,
      map (cachedVector env w) (filter nonBlank texts),
      uncachedAt env w (filter nonBlank texts),
      map (\<lambda>j. substring0 8191 (filter nonBlank texts ! j))
        (uncachedAt env w (filter nonBlank texts)))"
  by (simp add: batchStart_def Let_def cacheCheck_closed)

lemma cached_slot:
  assumes "k < length ts" and "k \<notin> set (uncachedAt env w ts)"
  shows "map (cachedVector env w) ts ! k \<noteq> None"
  using assms by (simp add: uncachedAt_iff)

lemma batchFinish_props:
  assumes run: "batchFinish env (batchStart env texts wc) w = (rs, w')"
  shows "length rs = length (filter nonBlank texts) \<and> sameStore w w'
         \<and> (wellBehaved env \<longrightarrow> list_all (\<lambda>x. x \<noteq> None) rs)"
proof -
  let ?ts = "filter nonBlank texts"
  let ?U = "uncachedAt env wc ?ts"
  let ?f = "\<lambda>j. substring0 8191 (?ts ! j)"
  let ?c = "map (cachedVector env wc) ?ts"
  note start = batchStart_closed [of env texts wc]
  show ?thesis
  proof (cases "?ts = []")
    case True
    with run show ?thesis by (simp add: start batchFinish_def)
  next
    case ne: False
    show ?thesis
    proof (cases "?U = []")
      case True
      then have "rs = ?c" "w' = w"
        using run ne by (simp_all add: start batchFinish_def)
      moreover have "list_all (\<lambda>x. x \<noteq> None) ?c"
        using cached_slot [of _ ?ts env wc] True
        by (simp add: list_all_length del: nth_map)
      ultimately show ?thesis by simp
    next
      case un: False
      have filled: "length r = length ?ts \<and> list_all (\<lambda>x. x \<noteq> None) r"
        if r: "r = map (\<lambda>k. if k \<in> set ?U then Some (generateMockEmbedding (?f k)) else rs1 ! k)
                  [0..<length rs1]"
          and l: "length rs1 = length ?ts"
          and keep: "\<forall>k < length ?ts. ?c ! k \<noteq> None \<longrightarrow> rs1 ! k \<noteq> None"
        for r rs1
      proof -
        have "r ! k \<noteq> None" if k: "k < length ?ts" for k
        proof -
          have "r ! k = (if k \<in> set ?U then Some (generateMockEmbedding (?f k)) else rs1 ! k)"
            using k r l by simp
          moreover have "rs1 ! k \<noteq> None" if "k \<notin> set ?U"
            using keep cached_slot [OF k that] k by blast
          ultimately show ?thesis by simp
        qed
        then show ?thesis using r l by (simp add: list_all_length)
      qed
      show ?thesis
      proof (cases "openai env")
        case None
        have "(rs, w') = mockFill ?U (map ?f ?U) (?c, w)"
          using run ne un None by (simp add: start batchFinish_def)
        then have r: "rs = map (\<lambda>k. if k \<in> set ?U then Some (generateMockEmbedding (?f k)) else ?c ! k)
                  [0..<length ?c]" and w: "w' = w\<lparr>mock_calls := mock_calls w + length ?U\<rparr>"
          by (simp_all add: mockFill_closed)
        have "length rs = length ?ts \<and> list_all (\<lambda>x. x \<noteq> None) rs"
          by (rule filled [OF r]) simp_all
        then show ?thesis using w by (simp add: sameStore_def)
      next
        case (Some api)
        obtain eo rs1 w1 where loop: "remoteLoop env api ?ts ?U (map ?f ?U) 0 (?c, w) = (eo, rs1, w1)"
          by (cases "remoteLoop env api ?ts ?U (map ?f ?U) 0 (?c, w)")
        note l1 = remoteLoop_length [OF loop]
        note f1 = remoteLoop_frame [OF loop]
        show ?thesis
        proof (cases eo)
          case None
          then have eq: "rs = rs1" "w' = w1"
            using run ne un Some loop by (simp_all add: start batchFinish_def)
          have "list_all (\<lambda>x. x \<noteq> None) rs1" if wb: "wellBehaved env"
          proof -
            have api: "\<forall>n inputs data. api n inputs = Inr data \<longrightarrow> length data = length inputs"
              using wb Some by (simp add: wellBehaved_def)
            have "\<forall>k \<in> set (drop 0 ?U). k < length ?c \<longrightarrow> rs1 ! k \<noteq> None"
              by (rule remoteLoop_complete [OF loop [unfolded None] _ api]) simp
            then have "rs1 ! k \<noteq> None" if "k < length ?ts" for k
              using that f1 cached_slot [of k ?ts env wc] by (cases "k \<in> set ?U") simp_all
            then show ?thesis using l1 by (simp add: list_all_length)
          qed
          then show ?thesis using eq l1 f1 by simp
        next
          case (Some e)
          have "(rs, w') = mockFill ?U (map ?f ?U) (rs1, w1)"
            using run ne un \<open>openai env = Some api\<close> loop Some
            by (simp add: start batchFinish_def)
          then have r: "rs = map (\<lambda>k. if k \<in> set ?U then Some (generateMockEmbedding (?f k)) else rs1 ! k)
                  [0..<length rs1]" and w: "w' = w1\<lparr>mock_calls := mock_calls w1 + length ?U\<rparr>"
            by (simp_all add: mockFill_closed)
          have "length rs = length ?ts \<and> list_all (\<lambda>x. x \<noteq> None) rs"
            by (rule filled [OF r]) (use l1 f1 in simp_all)
          then show ?thesis using w f1 by (simp add: sameStore_def)
        qed
      qed
    qed
  qed
qed

section \<open>Facts about the results of a call and the cache\<close>


lemma nonBlank_a: "nonBlank (utf16 ''a'')"
  by (simp add: nonBlank_iff utf16_def isWhiteSpace_def)



lemma remoteVectors_Nil [simp]: "remoteVectors api n [] = Some []"
  by (simp add: remoteVectors.simps)






























section \<open>The claims about the embeddings service\<close>

text \<open>
  Claim C4. The fallback generator reads nothing but its text: called in any two states
  of the process it produces the same vector, component for component, and the vector
  has exactly 384 components.
\<close>

theorem fallback_generator_deterministic:
  "fst (callMock t w1) = fst (callMock t w2)
   \<and> length (fst (callMock t w1)) = 384
   \<and> fst (callMock t w1) = generateMockEmbedding t"
  by (simp add: callMock_def length_generateMockEmbedding)

text \<open>
  Claim C5 asks for an L2 norm within 1e-6 of 1.0 for every text. The text
  \<open>f5a5a608\<close> has hash 0: every component is \<open>sin(0) * 0.5 = 0\<close>, the magnitude
  is 0, and the normalisation divides 0 by 0. The vector returned consists of 384 NaN
  and has no unit norm. (For a text whose components are not all zero the norm is 1:
  \<open>generateMockEmbedding_unit\<close>.)
\<close>

theorem fallback_norm_fails_at_hash_zero:
  "generateMockEmbedding (utf16 ''f5a5a608'') = replicate 384 NaN
   \<and> \<not> unitNorm (generateMockEmbedding (utf16 ''f5a5a608''))"
  by (simp add: generateMockEmbedding_hash_zero simpleHash_f5a5a608 unitNorm_def l2norm_all_NaN)

text \<open>
  Claim C9 asks that, without provider, the single-text path and the batch path give
  the same vector also for texts longer than 8191 code units. The single-text path
  hashes the whole text, the batch path its first 8191 code units. For \<open>longText\<close>
  (8192 code units) the two hashes are 2 and 1, and the second components of the two
  vectors have different signs. (For a text of at most 8191 code units the paths agree:
  \<open>single_and_batch_agree_short\<close>.)
\<close>

theorem single_and_batch_fallback_differ:
  "length longText = 8192
   \<and> fst (generateEmbedding env0 longText w0) = Some (generateMockEmbedding longText)
   \<and> fst (generateBatchEmbeddings env0 [longText] w0)
        = [Some (generateMockEmbedding (substring0 8191 longText))]
   \<and> generateMockEmbedding longText \<noteq> generateMockEmbedding (substring0 8191 longText)"
proof -
  have c: "embeddingCache w0 k = None" for k by (simp add: w0_def)
  have o: "openai env0 = None" by (simp add: env0_def)
  have "length longText = 8192"
    by (simp add: longText_def length_concat_replicate utf16_def)
  moreover have "fst (generateEmbedding env0 longText w0) = Some (generateMockEmbedding longText)"
    by (simp add: generateEmbedding_fallback [OF nonBlank_longText c o])
  moreover have "fst (generateBatchEmbeddings env0 [longText] w0)
        = [Some (generateMockEmbedding (substring0 8191 longText))]"
    by (simp add: batch_fallback [OF o] nonBlank_longText cachedVector_def c)
  ultimately show ?thesis using mock_differ by simp
qed

lemma single_and_batch_agree_short:
  assumes "openai env = None" and "nonBlank t" and "length t \<le> 8191"
  shows "fst (generateBatchEmbeddings env [t] w) = [fst (generateEmbedding env t w)]"
proof (cases "cachedVector env w t")
  case None
  then show ?thesis
    using assms
    by (simp add: batch_fallback generateEmbedding_fallback cachedVector_def substring0_def)
next
  case (Some v)
  then show ?thesis
    using assms by (simp add: batch_fallback generateEmbedding_cached cachedVector_def)
qed







section \<open>The claims about the batch processor\<close>

lemma batchLoop_counts:
  assumes "batchLoop env incs i (res, w) = (res', w')"
  shows "processed res' + errors res' = processed res + errors res + (length incs - i)"
  using assms
proof (induction env incs i "(res, w)" arbitrary: res w rule: batchLoop.induct)
  case (1 env incs i res w)
  note unf = batchLoop.simps [of env incs i res w]
  show ?case
  proof (cases "i < length incs")
    case False
    with "1.prems" show ?thesis by (simp add: unf)
  next
    case True
    let ?batch = "take 50 (drop i incs)"
    obtain outcome w1 where sb: "processSingleBatch env ?batch w = (outcome, w1)"
      by (cases "processSingleBatch env ?batch w")
    have len: "length ?batch + (length incs - (i + 50)) = length incs - i"
      using True by simp
    show ?thesis
    proof (cases outcome)
      case None
      have run: "batchLoop env incs (i + 50) (res\<lparr>processed := processed res + length ?batch\<rparr>, w1)
                   = (res', w')"
        using "1.prems" True sb None by (simp add: unf Let_def)
      show ?thesis
        using "1.hyps"(1) [OF True refl sb [symmetric] None run] len by simp
    next
      case (Some e)
      have run: "batchLoop env incs (i + 50) (res\<lparr>errors := errors res + length ?batch\<rparr>, w1)
                   = (res', w')"
        using "1.prems" True sb Some by (simp add: unf Let_def)
      show ?thesis
        using "1.hyps"(2) [OF True refl sb [symmetric] Some run] len by simp
    qed
  qed
qed

lemma subBatches_drop:
  "i < length incs \<Longrightarrow>
     subBatches (drop i incs) = take 50 (drop i incs) # subBatches (drop (i + 50) incs)"
  by (subst subBatches.simps) (simp add: add.commute)

lemma subBatches_Nil [simp]: "subBatches [] = []"
  by (subst subBatches.simps) simp

lemma subBatches_done: "\<not> i < length incs \<Longrightarrow> subBatches (drop i incs) = []"
  by (subst subBatches.simps) simp

lemma batchLoop_trace:
  assumes "batchLoop env incs i (res, w) = (res', w')"
  shows "processed res' = processed res
           + countWhere (\<lambda>outcome. outcome = None) (batchTrace env (subBatches (drop i incs)) w)
       \<and> errors res' = errors res
           + countWhere (\<lambda>outcome. outcome \<noteq> None) (batchTrace env (subBatches (drop i incs)) w)"
  using assms
proof (induction env incs i "(res, w)" arbitrary: res w rule: batchLoop.induct)
  case (1 env incs i res w)
  note unf = batchLoop.simps [of env incs i res w]
  show ?case
  proof (cases "i < length incs")
    case False
    with "1.prems" show ?thesis by (simp add: unf subBatches_done countWhere_def)
  next
    case True
    let ?batch = "take 50 (drop i incs)"
    obtain outcome w1 where sb: "processSingleBatch env ?batch w = (outcome, w1)"
      by (cases "processSingleBatch env ?batch w")
    have tr: "batchTrace env (subBatches (drop i incs)) w
                = (?batch, outcome) # batchTrace env (subBatches (drop (i + 50) incs)) w1"
      by (simp add: subBatches_drop [OF True] sb)
    show ?thesis
    proof (cases outcome)
      case None
      have run: "batchLoop env incs (i + 50) (res\<lparr>processed := processed res + length ?batch\<rparr>, w1)
                   = (res', w')"
        using "1.prems" True sb None by (simp add: unf Let_def)
      show ?thesis
        using "1.hyps"(1) [OF True refl sb [symmetric] None run] None
        by (simp add: tr countWhere_def)
    next
      case (Some e)
      have run: "batchLoop env incs (i + 50) (res\<lparr>errors := errors res + length ?batch\<rparr>, w1)
                   = (res', w')"
        using "1.prems" True sb Some by (simp add: unf Let_def)
      show ?thesis
        using "1.hyps"(2) [OF True refl sb [symmetric] Some run] Some
        by (simp add: tr countWhere_def)
    qed
  qed
qed

lemma batchLoop_state:
  assumes "batchLoop env incs i (res, w) = (res', w')"
  shows "w' = batchRun env (subBatches (drop i incs)) w"
  using assms
proof (induction env incs i "(res, w)" arbitrary: res w rule: batchLoop.induct)
  case (1 env incs i res w)
  note unf = batchLoop.simps [of env incs i res w]
  show ?case
  proof (cases "i < length incs")
    case False
    with "1.prems" show ?thesis by (simp add: unf subBatches_done)
  next
    case True
    let ?batch = "take 50 (drop i incs)"
    obtain outcome w1 where sb: "processSingleBatch env ?batch w = (outcome, w1)"
      by (cases "processSingleBatch env ?batch w")
    have tr: "batchRun env (subBatches (drop i incs)) w
                = batchRun env (subBatches (drop (i + 50) incs)) w1"
      by (simp add: subBatches_drop [OF True] sb)
    show ?thesis
    proof (cases outcome)
      case None
      have run: "batchLoop env incs (i + 50) (res\<lparr>processed := processed res + length ?batch\<rparr>, w1)
                   = (res', w')"
        using "1.prems" True sb None by (simp add: unf Let_def)
      show ?thesis
        using "1.hyps"(1) [OF True refl sb [symmetric] None run] by (simp add: tr)
    next
      case (Some e)
      have run: "batchLoop env incs (i + 50) (res\<lparr>errors := errors res + length ?batch\<rparr>, w1)
                   = (res', w')"
        using "1.prems" True sb Some by (simp add: unf Let_def)
      show ?thesis
        using "1.hyps"(2) [OF True refl sb [symmetric] Some run] by (simp add: tr)
    qed
  qed
qed

lemma batchTrace_batches: "map fst (batchTrace env batches w) = batches"
  by (induction batches arbitrary: w) (auto split: prod.splits)

lemma subBatches_props:
  "concat (subBatches incs) = incs
   \<and> list_all (\<lambda>batch. batch \<noteq> [] \<and> length batch \<le> 50) (subBatches incs)"
proof (induction incs rule: subBatches.induct)
  case (1 incs)
  show ?case
  proof (cases "incs = []")
    case True
    then show ?thesis by (subst (1 2) subBatches.simps) simp
  next
    case False
    with 1 show ?thesis by (subst (1 2) subBatches.simps) simp
  qed
qed

text \<open>
  Claim C1. \<^verbatim>\<open>processBatchEmbeddings\<close> always returns its two counters. It runs
  \<^verbatim>\<open>processSingleBatch\<close> on every sub-batch of at most 50 records, in order, each one
  in the state its predecessor left, whether or not an earlier one threw. The length of
  every sub-batch that threw is added to \<open>errors\<close>, the length of every other one to
  \<open>processed\<close>, and the state at the return is the state that the run of
  \<^verbatim>\<open>processSingleBatch\<close> on the last sub-batch left: the writes of every sub-batch are
  made. (An error of the provider does not reach this \<open>catch\<close>:
  \<^verbatim>\<open>generateBatchEmbeddings\<close> turns it into fallback vectors. A rejected update does.)
\<close>

theorem processBatchEmbeddings_isolates_failures:
  "map fst (batchTrace env (subBatches incidents) w) = subBatches incidents
   \<and> concat (subBatches incidents) = incidents
   \<and> list_all (\<lambda>batch. batch \<noteq> [] \<and> length batch \<le> 50) (subBatches incidents)
   \<and> processed (fst (processBatchEmbeddings env incidents w))
        = countWhere (\<lambda>outcome. outcome = None) (batchTrace env (subBatches incidents) w)
   \<and> errors (fst (processBatchEmbeddings env incidents w))
        = countWhere (\<lambda>outcome. outcome \<noteq> None) (batchTrace env (subBatches incidents) w)
   \<and> snd (processBatchEmbeddings env incidents w) = batchRun env (subBatches incidents) w"
proof -
  obtain res' w' where run:
    "batchLoop env incidents 0 (\<lparr>processed = 0, errors = 0\<rparr>, w) = (res', w')"
    by (cases "batchLoop env incidents 0 (\<lparr>processed = 0, errors = 0\<rparr>, w)")
  have "processed (fst (processBatchEmbeddings env incidents w))
        = countWhere (\<lambda>outcome. outcome = None) (batchTrace env (subBatches incidents) w)
   \<and> errors (fst (processBatchEmbeddings env incidents w))
        = countWhere (\<lambda>outcome. outcome \<noteq> None) (batchTrace env (subBatches incidents) w)
   \<and> snd (processBatchEmbeddings env incidents w) = batchRun env (subBatches incidents) w"
  proof (cases "incidents = []")
    case True
    then show ?thesis
      by (simp add: processBatchEmbeddings_def countWhere_def)
  next
    case False
    then show ?thesis
      using batchLoop_trace [OF run] batchLoop_state [OF run] run
      by (simp add: processBatchEmbeddings_def)
  qed
  then show ?thesis
    using subBatches_props [of incidents] by (simp add: batchTrace_batches)
qed

text \<open>
  Claim C10. The two counters add up to the number of input records, and for the empty
  list the function returns \<open>{processed: 0, errors: 0}\<close> and leaves the state, with
  its counters of provider requests, fallback vectors and store updates, as it is.
\<close>

theorem processBatchEmbeddings_counts_every_record:
  "processed (fst (processBatchEmbeddings env incidents w))
     + errors (fst (processBatchEmbeddings env incidents w)) = length incidents
   \<and> processBatchEmbeddings env [] w = (\<lparr>processed = 0, errors = 0\<rparr>, w)"
proof -
  obtain res' w' where run:
    "batchLoop env incidents 0 (\<lparr>processed = 0, errors = 0\<rparr>, w) = (res', w')"
    by (cases "batchLoop env incidents 0 (\<lparr>processed = 0, errors = 0\<rparr>, w)")
  show ?thesis
    using batchLoop_counts [OF run] run by (simp add: processBatchEmbeddings_def)
qed

lemma batchFinish_fallback_one:
  assumes "openai env = None" and "nonBlank t" and "cachedVector env wc t = None"
  shows "batchFinish env (batchStart env [t] wc) w
           = ([Some (generateMockEmbedding (substring0 8191 t))], w\<lparr>mock_calls := mock_calls w + 1\<rparr>)"
proof -
  have u: "uncachedAt env wc [t] = [0]"
    using assms(3) by (simp add: uncachedAt_def)
  show ?thesis
    using assms by (simp add: batchStart_closed u batchFinish_def mockFill_def callMock_def)
qed

lemma first_batch_fails:
  "processSingleBatch envRejectFirst (rowA # replicate 49 rowDone) wAB
     = (Some PersistenceError, wAB1)"
proof -
  have f: "filter needsTitle (rowA # replicate 49 rowDone) = [rowA]"
          "filter needsDescription (rowA # replicate 49 rowDone) = []"
    by (simp_all add: needsTitle_def needsDescription_def rowA_def rowDone_def utf16_def)
  have c: "cachedVector envRejectFirst wAB t = None" for t
    by (simp add: cachedVector_def wAB_def)
  have o: "openai envRejectFirst = None" by (simp add: envRejectFirst_def)
  have t: "title rowA = utf16 ''a''" by (simp add: rowA_def)
  show ?thesis
    unfolding processSingleBatch_def f
    by (simp add: t batchFinish_fallback_one [OF o nonBlank_a c] at_index_def repoUpdate_def)
       (simp add: envRejectFirst_def wAB_def wAB1_def)
qed

lemma second_batch_succeeds:
  "processSingleBatch envRejectFirst [rowB] wAB1 = (None, wAB2)"
proof -
  have f: "filter needsTitle [rowB] = [rowB]" "filter needsDescription [rowB] = []"
    by (simp_all add: needsTitle_def needsDescription_def rowB_def utf16_def)
  have c: "cachedVector envRejectFirst wAB1 t = None" for t
    by (simp add: cachedVector_def wAB_def wAB1_def)
  have o: "openai envRejectFirst = None" by (simp add: envRejectFirst_def)
  have t: "title rowB = utf16 ''a''" by (simp add: rowB_def)
  have s: "substring0 8191 (utf16 ''a'') = utf16 ''a''" by (simp add: substring0_def utf16_def)
  show ?thesis
    unfolding processSingleBatch_def f
    by (simp add: t batchFinish_fallback_one [OF o nonBlank_a c] at_index_def repoUpdate_def s)
       (simp add: envRejectFirst_def wAB_def wAB1_def wAB2_def rowB1_def rowA_def rowB_def setVector_def)
qed

lemma subBatches_example:
  "subBatches (rowA # replicate 49 rowDone @ [rowB]) = [rowA # replicate 49 rowDone, [rowB]]"
  by (subst subBatches.simps, simp)+

theorem processBatchEmbeddings_isolates_failures_witness:
  "processBatchEmbeddings envRejectFirst (rowA # replicate 49 rowDone @ [rowB]) wAB
     = (\<lparr>processed = 1, errors = 50\<rparr>, wAB2)
   \<and> table wAB2 = [rowA, rowB1]"
proof -
  show ?thesis
    using processBatchEmbeddings_isolates_failures
            [of envRejectFirst "rowA # replicate 49 rowDone @ [rowB]" wAB]
    by (simp add: subBatches_example first_batch_fails second_batch_succeeds countWhere_def
          prod_eq_iff wAB2_def)
qed

theorem processBatchEmbeddings_counts_every_record_witness:
  "processed (fst (processBatchEmbeddings envRejectFirst (rowA # replicate 49 rowDone @ [rowB]) wAB))
     + errors (fst (processBatchEmbeddings envRejectFirst (rowA # replicate 49 rowDone @ [rowB]) wAB))
     = 51"
  using processBatchEmbeddings_counts_every_record
          [of envRejectFirst "rowA # replicate 49 rowDone @ [rowB]" wAB]
  by simp

section \<open>The claims about the similarity queries\<close>

lemma magnitude_unit: "magnitude [1, 0] = 1" "magnitude [0, 1] = 1"
  by (simp_all add: magnitude_def)

lemma magnitude_3_4: "magnitude [3, 4] = 5"
proof -
  have "sqrt 25 = sqrt (5\<^sup>2)" by simp
  also have "\<dots> = 5" by (simp only: real_sqrt_abs)
  finally show ?thesis by (simp add: magnitude_def)
qed

lemma distances:
  "cosineDistance [Num 1, Num 0] [Num 1, Num 0] = 0"
  "cosineDistance [Num 0, Num 1] [Num 1, Num 0] = 1"
  "cosineDistance [Num 1, Num 0] [Num 0, Num 1] = 1"
  "cosineDistance [Num 0, Num 1] [Num 0, Num 1] = 0"
  "cosineDistance [Num 3, Num 4] [Num 1, Num 0] = 2 / 5"
  "cosineDistance [Num 3, Num 4] [Num 0, Num 1] = 1 / 5"
  by (simp_all add: cosineDistance_def finiteParts_def magnitude_unit magnitude_3_4)

lemma scores:
  "score senv0 [Num 1, Num 0] rowNear = 0"
  "score senv0 [Num 1, Num 0] rowFar = 1"
  "score senv0 [Num 1, Num 0] rowBare = 0"
  "score senv0 [Num 1, Num 0] rowMid = 2 / 5"
  by (simp_all add: score_def senv0_def rowNear_def rowFar_def rowBare_def rowMid_def distances)

lemma window:
  "lexLe ''2024-06-01T00:00:00.000Z'' ''2024-06-02T10:00:00.000Z''"
  "lexLe ''2024-06-02T10:00:00.000Z'' ''2024-06-03T23:59:59.999Z''"
  "lexLe ''2024-06-01T00:00:00.000Z'' ''2024-06-02T12:00:00.000Z''"
  "lexLe ''2024-06-02T12:00:00.000Z'' ''2024-06-03T23:59:59.999Z''"
  "lexLe ''2024-06-01T00:00:00.000Z'' ''2024-06-02T11:00:00.000Z''"
  "lexLe ''2024-06-02T11:00:00.000Z'' ''2024-06-03T23:59:59.999Z''"
  by simp_all

text \<open>
  Claim C7 says that a record is returned only if its distance is strictly below the
  threshold, 0.8 being used when the caller passes none. With the threshold 0 passed,
  \<open>filters?.similarityThreshold || 0.8\<close> is 0.8, and the search returns the record at
  distance 0, which is not below 0.
\<close>

theorem semanticSearch_ignores_threshold_zero:
  "semanticSearch senv0 wSearch [Num 1, Num 0] None (Some thresholdZero)
     = Inr [(rowNear, 0), (rowMid, 2 / 5)]
   \<and> similarityThreshold thresholdZero = Some 0"
proof -
  have t: "effectiveThreshold (Some thresholdZero) = 0.8"
    by (simp add: effectiveThreshold_def thresholdZero_def)
  have d: "dateBound senv0 None (yesterday senv0) = Inr ''2024-06-01T00:00:00.000Z''"
          "dateBound senv0 None (tomorrow senv0) = Inr ''2024-06-03T23:59:59.999Z''"
    by (simp_all add: dateBound_def senv0_def)
  have f: "startDate thresholdZero = None" "endDate thresholdZero = None"
          "similarityThreshold thresholdZero = Some 0"
    by (simp_all add: thresholdZero_def)
  have c: "categoryOk (Some thresholdZero) r" for r
    by (simp add: categoryOk_def thresholdZero_def)
  have tv: "title_vector rowFar \<noteq> None" "title_vector rowNear \<noteq> None"
           "title_vector rowMid \<noteq> None" "title_vector rowBare = None"
    by (simp_all add: rowFar_def rowNear_def rowMid_def rowBare_def)
  have dt: "datetime rowNear = ''2024-06-02T10:00:00.000Z''"
           "datetime rowMid = ''2024-06-02T11:00:00.000Z''" "dateLe senv0 = lexLe"
    by (simp_all add: rowNear_def rowMid_def senv0_def)
  have tb: "table wSearch = [rowFar, rowMid, rowNear, rowBare]" by (simp add: wSearch_def)
  have "semanticSearch senv0 wSearch [Num 1, Num 0] None (Some thresholdZero)
          = Inr [(rowNear, 0), (rowMid, 2 / 5)]"
    by (simp add: semanticSearch_def t d f tb scores c tv dt window del: lexLe.simps)
  then show ?thesis by (simp add: f)
qed

lemma topk_sorted: "sorted (map f (take n (sort_key f xs)))"
  by (simp add: take_map [symmetric] sorted_wrt_take)

lemma topk_length: "length (take n (sort_key f xs)) = min n (length xs)"
  by (simp add: min_def)

lemma topk_set: "set (take n (sort_key f xs)) \<subseteq> set xs"
  using set_take_subset [of n "sort_key f xs"] by simp

lemma topk_best:
  assumes "x \<in> set xs" and "x \<notin> set (take n (sort_key f xs))"
    and "y \<in> set (take n (sort_key f xs))"
  shows "f y \<le> f x"
proof -
  let ?s = "sort_key f xs"
  have "set ?s = set (take n ?s) \<union> set (drop n ?s)"
    by (metis append_take_drop_id set_append)
  then have x: "x \<in> set (drop n ?s)" using assms(1,2) by simp
  have "sorted (map f (take n ?s) @ map f (drop n ?s))"
    by (simp add: map_append [symmetric])
  then have "\<forall>a \<in> set (map f (take n ?s)). \<forall>b \<in> set (map f (drop n ?s)). a \<le> b"
    by (simp add: sorted_append)
  then show ?thesis using x assms(3) by auto
qed

lemma semanticSearch_sound:
  assumes "semanticSearch senv w q limit fs = Inr rs"
  shows "sorted (map snd rs)
       \<and> length rs \<le> (case limit of None \<Rightarrow> 20 | Some n \<Rightarrow> n)
       \<and> (\<forall>(r, d) \<in> set rs. r \<in> set (table w) \<and> title_vector r \<noteq> None
              \<and> d = score senv q r \<and> d < effectiveThreshold fs \<and> categoryOk fs r)"
proof -
  let ?sd = "dateBound senv (case fs of None \<Rightarrow> None | Some f \<Rightarrow> startDate f) (yesterday senv)"
  let ?ed = "dateBound senv (case fs of None \<Rightarrow> None | Some f \<Rightarrow> endDate f) (tomorrow senv)"
  let ?n = "case limit of None \<Rightarrow> 20 | Some n \<Rightarrow> n"
  obtain a b where ab: "?sd = Inr a" "?ed = Inr b"
    using assms by (cases ?sd; cases ?ed) (simp_all add: semanticSearch_def Let_def)
  let ?p = "\<lambda>r. title_vector r \<noteq> None \<and> score senv q r < effectiveThreshold fs
               \<and> categoryOk fs r \<and> dateLe senv a (datetime r) \<and> dateLe senv (datetime r) b"
  let ?top = "take ?n (sort_key (score senv q) (filter ?p (table w)))"
  have rs: "rs = map (\<lambda>r. (r, score senv q r)) ?top"
    using assms by (simp add: semanticSearch_def Let_def ab)
  have "map snd rs = map (score senv q) ?top"
    by (simp add: rs comp_def)
  then have "sorted (map snd rs)" by (simp only: topk_sorted)
  moreover have "length rs \<le> ?n" by (simp add: rs)
  moreover have "r \<in> set (table w) \<and> ?p r \<and> d = score senv q r" if "(r, d) \<in> set rs" for r d
    using that topk_set [of ?n "score senv q" "filter ?p (table w)"] by (auto simp: rs)
  ultimately show ?thesis by blast
qed

text \<open>
  Claim C8 says that "find similar to X" fails with a not-found error when X is absent
  or has no stored vector. \<^verbatim>\<open>findSimilarIncidents\<close> returns the empty list in both
  cases: for the id \<open>missing\<close>, which no row has, and for the row \<open>X\<close>, which has no
  title vector.
\<close>

theorem findSimilar_absent_returns_empty:
  "findSimilarIncidents senv0 wSearch ''missing'' None = Inr []
   \<and> findSimilarIncidents senv0 wSearch ''X'' None = Inr []
   \<and> findSimilarIncidents senv0 wSearch ''missing'' None \<noteq> Inl NotFound"
  by (simp add: findSimilarIncidents_def wSearch_def rowFar_def rowMid_def rowNear_def rowBare_def)

text \<open>
  Claim C8, amended. \<^verbatim>\<open>findSimilarIncidents\<close> never fails. When X is absent or has no
  title vector it returns the empty list. Otherwise it returns rows of the store other
  than X that have a title vector, each with its distance to X's vector, in ascending
  order of distance, as many as the limit allows (default 10), and no row left out is
  closer than a row returned.
\<close>

theorem findSimilar_ranks_other_rows:
  "(find (\<lambda>r. inc_id r = x) (table w) = None \<longrightarrow> findSimilarIncidents senv w x limit = Inr [])
   \<and> (\<forall>inc. find (\<lambda>r. inc_id r = x) (table w) = Some inc \<and> title_vector inc = None
          \<longrightarrow> findSimilarIncidents senv w x limit = Inr [])
   \<and> (\<forall>inc v. find (\<lambda>r. inc_id r = x) (table w) = Some inc \<and> title_vector inc = Some v
          \<longrightarrow> (\<exists>rs. findSimilarIncidents senv w x limit = Inr rs
                 \<and> sorted (map snd rs)
                 \<and> length rs = min (case limit of None \<Rightarrow> 10 | Some n \<Rightarrow> n)
                     (length (filter (\<lambda>r. title_vector r \<noteq> None \<and> inc_id r \<noteq> x) (table w)))
                 \<and> (\<forall>(r, d) \<in> set rs. r \<in> set (table w) \<and> inc_id r \<noteq> x
                        \<and> title_vector r \<noteq> None \<and> d = score senv v r)
                 \<and> (\<forall>r' \<in> set (table w). title_vector r' \<noteq> None \<and> inc_id r' \<noteq> x
                        \<and> r' \<notin> fst ` set rs \<longrightarrow> (\<forall>(r, d) \<in> set rs. d \<le> score senv v r'))))"
proof (intro conjI allI impI)
  show "findSimilarIncidents senv w x limit = Inr []"
    if "find (\<lambda>r. inc_id r = x) (table w) = None"
    using that by (simp add: findSimilarIncidents_def)
next
  fix inc
  assume "find (\<lambda>r. inc_id r = x) (table w) = Some inc \<and> title_vector inc = None"
  then show "findSimilarIncidents senv w x limit = Inr []"
    by (simp add: findSimilarIncidents_def)
next
  fix inc v
  assume a: "find (\<lambda>r. inc_id r = x) (table w) = Some inc \<and> title_vector inc = Some v"
  let ?n = "case limit of None \<Rightarrow> 10 | Some n \<Rightarrow> n"
  let ?p = "\<lambda>r. title_vector r \<noteq> None \<and> inc_id r \<noteq> x"
  let ?top = "take ?n (sort_key (score senv v) (filter ?p (table w)))"
  let ?rs = "map (\<lambda>r. (r, score senv v r)) ?top"
  have run: "findSimilarIncidents senv w x limit = Inr ?rs"
    using a by (simp add: findSimilarIncidents_def)
  have "map snd ?rs = map (score senv v) ?top" by (simp add: comp_def)
  then have s: "sorted (map snd ?rs)" by (simp only: topk_sorted)
  have l: "length ?rs = min ?n (length (filter ?p (table w)))"
    by (simp add: min_def)
  have m: "r \<in> set (table w) \<and> ?p r \<and> d = score senv v r" if "(r, d) \<in> set ?rs" for r d
    using that topk_set [of ?n "score senv v" "filter ?p (table w)"] by auto
  have fst: "fst ` set ?rs = set ?top" by (auto simp: image_iff)
  have b: "d \<le> score senv v r'"
    if "r' \<in> set (table w)" "?p r'" "r' \<notin> fst ` set ?rs" "(r, d) \<in> set ?rs" for r' r d
  proof -
    have "r' \<in> set (filter ?p (table w))" using that(1,2) by simp
    moreover have "r' \<notin> set ?top" using that(3) unfolding fst .
    moreover have "r \<in> set ?top" "d = score senv v r" using that(4) by auto
    ultimately show ?thesis using topk_best [of r' "filter ?p (table w)" ?n "score senv v" r] by simp
  qed
  show "\<exists>rs. findSimilarIncidents senv w x limit = Inr rs
                 \<and> sorted (map snd rs)
                 \<and> length rs = min ?n (length (filter ?p (table w)))
                 \<and> (\<forall>(r, d) \<in> set rs. r \<in> set (table w) \<and> inc_id r \<noteq> x
                        \<and> title_vector r \<noteq> None \<and> d = score senv v r)
                 \<and> (\<forall>r' \<in> set (table w). title_vector r' \<noteq> None \<and> inc_id r' \<noteq> x
                        \<and> r' \<notin> fst ` set rs \<longrightarrow> (\<forall>(r, d) \<in> set rs. d \<le> score senv v r'))"
  proof (intro exI [of _ ?rs] conjI)
    show "findSimilarIncidents senv w x limit = Inr ?rs" by (rule run)
    show "sorted (map snd ?rs)" by (rule s)
    show "length ?rs = min ?n (length (filter ?p (table w)))" by (rule l)
    show "\<forall>(r, d) \<in> set ?rs. r \<in> set (table w) \<and> inc_id r \<noteq> x
            \<and> title_vector r \<noteq> None \<and> d = score senv v r"
      using m by blast
    show "\<forall>r' \<in> set (table w). title_vector r' \<noteq> None \<and> inc_id r' \<noteq> x
            \<and> r' \<notin> fst ` set ?rs \<longrightarrow> (\<forall>(r, d) \<in> set ?rs. d \<le> score senv v r')"
      using b by blast
  qed
qed

lemma findSimilar_example:
  "findSimilarIncidents senv0 wSearch ''N'' None = Inr [(rowMid, 2 / 5), (rowFar, 1)]"
proof -
  have tb: "table wSearch = [rowFar, rowMid, rowNear, rowBare]" by (simp add: wSearch_def)
  have ids: "inc_id rowFar = ''F''" "inc_id rowMid = ''M''" "inc_id rowNear = ''N''"
            "inc_id rowBare = ''X''"
    by (simp_all add: rowFar_def rowMid_def rowNear_def rowBare_def)
  have tv: "title_vector rowFar \<noteq> None" "title_vector rowNear = Some [Num 1, Num 0]"
           "title_vector rowMid \<noteq> None" "title_vector rowBare = None"
    by (simp_all add: rowFar_def rowNear_def rowMid_def rowBare_def)
  show ?thesis
    by (simp add: findSimilarIncidents_def tb ids tv scores)
qed

theorem findSimilar_ranks_other_rows_witness:
  "find (\<lambda>r. inc_id r = ''N'') (table wSearch) = Some rowNear
   \<and> title_vector rowNear = Some [Num 1, Num 0]
   \<and> (\<exists>rs. findSimilarIncidents senv0 wSearch ''N'' None = Inr rs
          \<and> sorted (map snd rs) \<and> length rs = 2
          \<and> rowNear \<notin> fst ` set rs)"
proof -
  have tb: "table wSearch = [rowFar, rowMid, rowNear, rowBare]" by (simp add: wSearch_def)
  have ids: "inc_id rowFar = ''F''" "inc_id rowMid = ''M''" "inc_id rowNear = ''N''"
            "inc_id rowBare = ''X''"
    by (simp_all add: rowFar_def rowMid_def rowNear_def rowBare_def)
  have tv: "title_vector rowFar \<noteq> None" "title_vector rowNear = Some [Num 1, Num 0]"
           "title_vector rowMid \<noteq> None" "title_vector rowBare = None"
    by (simp_all add: rowFar_def rowNear_def rowMid_def rowBare_def)
  have f: "find (\<lambda>r. inc_id r = ''N'') (table wSearch) = Some rowNear"
    by (simp add: tb ids)
  have n: "length (filter (\<lambda>r. title_vector r \<noteq> None \<and> inc_id r \<noteq> ''N'') (table wSearch)) = 2"
    by (simp add: tb ids tv)
  obtain rs where rs: "findSimilarIncidents senv0 wSearch ''N'' None = Inr rs"
      "sorted (map snd rs)"
      "length rs = min (case None of None \<Rightarrow> 10 | Some n \<Rightarrow> n)
         (length (filter (\<lambda>r. title_vector r \<noteq> None \<and> inc_id r \<noteq> ''N'') (table wSearch)))"
      "\<forall>(r, d) \<in> set rs. r \<in> set (table wSearch) \<and> inc_id r \<noteq> ''N''
          \<and> title_vector r \<noteq> None \<and> d = score senv0 [Num 1, Num 0] r"
    using findSimilar_ranks_other_rows [of "''N''" wSearch senv0 None] f tv(2) by blast
  have "rowNear \<notin> fst ` set rs"
    using rs(4) ids(3) by fastforce
  then show ?thesis
    using f tv(2) rs(1,2,3) n by auto
qed

section \<open>The claims about the backfill\<close>

lemma grows_refl [simp]: "grows t t"
  by (simp add: grows_def list_all2_same)

lemma grows_trans: "grows t t1 \<Longrightarrow> grows t1 t2 \<Longrightarrow> grows t t2"
  unfolding grows_def
  by (rule list_all2_trans) auto

lemma covered_grows:
  assumes "covered f ident t" and "grows t t'"
  shows "covered f ident t'"
proof -
  have len: "length t = length t'"
    using assms(2) unfolding grows_def by (rule list_all2_lengthD)
  have rel: "inc_id (t' ! p) = inc_id (t ! p)
             \<and> (hasVector TitleVector (t' ! p) \<or> \<not> hasVector TitleVector (t ! p))
             \<and> (hasVector DescriptionVector (t' ! p) \<or> \<not> hasVector DescriptionVector (t ! p))"
    if "p < length t" for p
    using assms(2) that unfolding grows_def by (rule list_all2_nthD)
  have old: "inc_id (t ! p) \<noteq> ident \<or> hasVector f (t ! p)" if "p < length t" for p
    using assms(1) that unfolding covered_def list_all_length by blast
  have "inc_id (t' ! p) \<noteq> ident \<or> hasVector f (t' ! p)" if "p < length t'" for p
  proof (cases f)
    case TitleVector
    then show ?thesis using rel [of p] old [of p] that len by metis
  next
    case DescriptionVector
    then show ?thesis using rel [of p] old [of p] that len by metis
  qed
  then show ?thesis unfolding covered_def list_all_length by blast
qed

lemma repoUpdate_flag:
  assumes "repoUpdate env ident f v (rej, w) = (False, w1)"
  shows "rej = False
       \<and> table w1 = map (\<lambda>r. if inc_id r = ident then setVector f v r else r) (table w)"
  using assms by (auto simp: repoUpdate_def Let_def split: if_splits)

lemma setVector_id: "inc_id (setVector f v r) = inc_id r"
  by (cases f) (simp_all add: setVector_def)

lemma setVector_has: "hasVector f (setVector f v r)"
  by (cases f) (simp_all add: setVector_def hasVector_def)

lemma setVector_keeps: "hasVector g r \<Longrightarrow> hasVector g (setVector f v r)"
  by (cases f; cases g) (simp_all add: setVector_def hasVector_def)

lemma update_grows:
  "grows t (map (\<lambda>r. if inc_id r = ident then setVector f v r else r) t)"
proof -
  have "hasVector g (setVector f v r) \<or> \<not> hasVector g r" for g r
    using setVector_keeps [of g r f v] by blast
  then show ?thesis
    by (induction t) (simp_all add: grows_def setVector_id)
qed

lemma update_covers:
  "covered f ident (map (\<lambda>r. if inc_id r = ident then setVector f v r else r) t)"
  by (induction t) (simp_all add: covered_def setVector_id setVector_has)

lemma issueUpdates_effect:
  assumes "\<forall>j < length incs. at_index embs (i + j) \<noteq> None"
    and "issueUpdates env f incs i embs (rej, w) = (False, w')"
  shows "rej = False \<and> grows (table w) (table w')
       \<and> list_all (\<lambda>inc. covered f (inc_id inc) (table w')) incs"
  using assms
proof (induction incs arbitrary: i rej w)
  case Nil
  then show ?case by simp
next
  case (Cons inc incs)
  have "at_index embs (i + 0) \<noteq> None"
    using Cons.prems(1) by (metis length_greater_0_conv list.distinct(1))
  then obtain v where v: "at_index embs i = Some v"
    by (cases "at_index embs i") simp_all
  obtain rej1 w1 where u: "repoUpdate env (inc_id inc) f v (rej, w) = (rej1, w1)"
    by (metis surj_pair)
  have run: "issueUpdates env f incs (i + 1) embs (rej1, w1) = (False, w')"
    using Cons.prems(2) by (simp add: v u)
  have rest: "\<forall>j < length incs. at_index embs (i + 1 + j) \<noteq> None"
  proof (intro allI impI)
    fix j assume "j < length incs"
    then have "Suc j < length (inc # incs)" by simp
    then have "at_index embs (i + Suc j) \<noteq> None" using Cons.prems(1) by blast
    then show "at_index embs (i + 1 + j) \<noteq> None" by simp
  qed
  have ih: "rej1 = False \<and> grows (table w1) (table w')
              \<and> list_all (\<lambda>inc. covered f (inc_id inc) (table w')) incs"
    by (rule Cons.IH [OF rest run])
  then have u': "repoUpdate env (inc_id inc) f v (rej, w) = (False, w1)"
    using u by simp
  note f1 = repoUpdate_flag [OF u']
  have t1: "table w1 = map (\<lambda>r. if inc_id r = inc_id inc then setVector f v r else r) (table w)"
    using f1 by blast
  have g: "grows (table w) (table w')"
    using update_grows [of "table w" "inc_id inc" f v] ih unfolding t1
    by (blast intro: grows_trans)
  have c: "covered f (inc_id inc) (table w')"
    using update_covers [of f "inc_id inc" v "table w"] ih unfolding t1
    by (blast intro: covered_grows)
  show ?case
    using ih g c f1 by simp
qed

lemma nonBlank_not_Nil: "nonBlank t \<Longrightarrow> t \<noteq> []"
  by (simp add: nonBlank_def)

lemma embeddings_for_all:
  assumes "wellBehaved env" and "list_all nonBlank texts"
    and "(case (if texts \<noteq> [] then Some (batchStart env texts wc) else None) of
            Some p \<Rightarrow> batchFinish env p w
          | None \<Rightarrow> ([], w)) = (rs, w')"
  shows "sameStore w w' \<and> (\<forall>j < length texts. at_index rs (0 + j) \<noteq> None)"
proof (cases "texts = []")
  case True
  with assms(3) show ?thesis by simp
next
  case False
  then have run: "batchFinish env (batchStart env texts wc) w = (rs, w')"
    using assms(3) by simp
  have all: "filter nonBlank texts = texts"
    using assms(2) by (simp add: list_all_iff)
  have props: "length rs = length texts \<and> sameStore w w' \<and> list_all (\<lambda>x. x \<noteq> None) rs"
    using batchFinish_props [OF run] assms(1) unfolding all by blast
  then have "at_index rs (0 + j) \<noteq> None" if "j < length texts" for j
    using that by (simp add: at_index_def list_all_length)
  with props show ?thesis by blast
qed

lemma processSingleBatch_backfills:
  assumes wb: "wellBehaved env"
    and emb: "list_all embeddable batch"
    and ok: "fst (processSingleBatch env batch w) = None"
  shows "grows (table w) (table (snd (processSingleBatch env batch w)))
       \<and> list_all (\<lambda>inc.
            (title_vector inc \<noteq> None
               \<or> covered TitleVector (inc_id inc) (table (snd (processSingleBatch env batch w))))
            \<and> (description_vector inc \<noteq> None
               \<or> covered DescriptionVector (inc_id inc)
                    (table (snd (processSingleBatch env batch w))))) batch"
proof -
  let ?nT = "filter needsTitle batch"
  let ?nD = "filter needsDescription batch"
  let ?tT = "map title ?nT"
  let ?dT = "map descriptionText ?nD"
  have e: "embeddable inc" if "inc \<in> set batch" for inc
    using emb that by (simp add: list_all_iff)
  have tnb: "list_all nonBlank ?tT"
    unfolding list_all_iff
  proof
    fix t assume "t \<in> set ?tT"
    then obtain inc where inc: "inc \<in> set batch" "needsTitle inc" "t = title inc" by auto
    then have "title_vector inc = None" by (simp add: needsTitle_def)
    then show "nonBlank t" using e [OF inc(1)] inc(3) by (simp add: embeddable_def)
  qed
  have dnb: "list_all nonBlank ?dT"
    unfolding list_all_iff
  proof
    fix t assume "t \<in> set ?dT"
    then obtain inc where inc: "inc \<in> set batch" "needsDescription inc" "t = descriptionText inc"
      by auto
    then have "description_vector inc = None" by (simp add: needsDescription_def)
    then show "nonBlank t"
      using e [OF inc(1)] inc(3)
      by (cases "description inc") (simp_all add: embeddable_def descriptionText_def)
  qed
  obtain tE w1 where t: "(case (if ?tT \<noteq> [] then Some (batchStart env ?tT w) else None) of
            Some p \<Rightarrow> batchFinish env p w | None \<Rightarrow> ([], w)) = (tE, w1)"
    by (metis surj_pair)
  obtain dE w2 where d: "(case (if ?dT \<noteq> [] then Some (batchStart env ?dT w) else None) of
            Some p \<Rightarrow> batchFinish env p w1 | None \<Rightarrow> ([], w1)) = (dE, w2)"
    by (metis surj_pair)
  note pt = embeddings_for_all [OF wb tnb t]
  note pd = embeddings_for_all [OF wb dnb d]
  have tab: "table w2 = table w"
    using pt pd by (simp add: sameStore_def)
  have tall: "\<forall>j < length ?nT. at_index tE (0 + j) \<noteq> None" using pt by simp
  have dall: "\<forall>j < length ?nD. at_index dE (0 + j) \<noteq> None" using pd by simp
  obtain r1 x1 where u1: "issueUpdates env TitleVector ?nT 0 tE (False, w2) = (r1, x1)"
    by (metis surj_pair)
  obtain r2 x2 where u2: "issueUpdates env DescriptionVector ?nD 0 dE (r1, x1) = (r2, x2)"
    by (metis surj_pair)
  have out: "processSingleBatch env batch w = (if r2 then Some PersistenceError else None, x2)"
    unfolding processSingleBatch_def Let_def
    by (simp only: t prod.case d u1 u2)
  have r2: "r2 = False" using ok unfolding out by (simp split: if_splits)
  have i2: "r1 = False \<and> grows (table x1) (table x2)
            \<and> list_all (\<lambda>inc. covered DescriptionVector (inc_id inc) (table x2)) ?nD"
    by (rule issueUpdates_effect [OF dall u2 [unfolded r2]])
  then have r1: "r1 = False" by blast
  have i1: "False = False \<and> grows (table w2) (table x1)
            \<and> list_all (\<lambda>inc. covered TitleVector (inc_id inc) (table x1)) ?nT"
    by (rule issueUpdates_effect [OF tall u1 [unfolded r1]])
  have g1: "grows (table w) (table x1)" using i1 unfolding tab by blast
  have g: "grows (table w) (table x2)"
    by (rule grows_trans [OF g1]) (use i2 in blast)
  have ct: "covered TitleVector (inc_id inc) (table x2)" if "inc \<in> set ?nT" for inc
  proof -
    have "covered TitleVector (inc_id inc) (table x1)"
      using i1 that unfolding list_all_iff by blast
    then show ?thesis using i2 by (blast intro: covered_grows)
  qed
  have cd: "covered DescriptionVector (inc_id inc) (table x2)" if "inc \<in> set ?nD" for inc
    using i2 that unfolding list_all_iff by blast
  have "(title_vector inc \<noteq> None \<or> covered TitleVector (inc_id inc) (table x2))
      \<and> (description_vector inc \<noteq> None \<or> covered DescriptionVector (inc_id inc) (table x2))"
    if "inc \<in> set batch" for inc
  proof -
    have "inc \<in> set ?nT" if n: "title_vector inc = None"
    proof -
      have "nonBlank (title inc)" using e [OF \<open>inc \<in> set batch\<close>] n by (simp add: embeddable_def)
      then have "needsTitle inc" using n by (simp add: needsTitle_def nonBlank_not_Nil)
      then show ?thesis using \<open>inc \<in> set batch\<close> by simp
    qed
    moreover have "inc \<in> set ?nD" if n: "description_vector inc = None"
    proof -
      obtain dd where dd: "description inc = Some dd" "nonBlank dd"
        using e [OF \<open>inc \<in> set batch\<close>] n
        by (cases "description inc") (simp_all add: embeddable_def)
      then have "needsDescription inc" using n by (simp add: needsDescription_def nonBlank_not_Nil)
      then show ?thesis using \<open>inc \<in> set batch\<close> by simp
    qed
    ultimately show ?thesis using ct cd by blast
  qed
  then show ?thesis
    unfolding out using g by (simp add: list_all_iff)
qed

lemma batchLoop_errors_mono:
  assumes "batchLoop env incs i (res, w) = (res', w')"
  shows "errors res \<le> errors res'"
  using batchLoop_trace [OF assms] by simp

lemma batchLoop_backfills:
  assumes wb: "wellBehaved env"
    and emb: "list_all embeddable incs"
    and run: "batchLoop env incs i (res, w) = (res', w')"
    and ok: "errors res' = errors res"
  shows "grows (table w) (table w')
       \<and> list_all (\<lambda>inc.
            (title_vector inc \<noteq> None \<or> covered TitleVector (inc_id inc) (table w'))
            \<and> (description_vector inc \<noteq> None
               \<or> covered DescriptionVector (inc_id inc) (table w'))) (drop i incs)"
  using assms
proof (induction env incs i "(res, w)" arbitrary: res w rule: batchLoop.induct)
  case (1 env incs i res w)
  note unf = batchLoop.simps [of env incs i res w]
  note wb = "1.prems"(1) and emb = "1.prems"(2) and run = "1.prems"(3) and ok = "1.prems"(4)
  show ?case
  proof (cases "i < length incs")
    case False
    with run show ?thesis by (simp add: unf)
  next
    case True
    let ?batch = "take 50 (drop i incs)"
    obtain outcome w1 where sb: "processSingleBatch env ?batch w = (outcome, w1)"
      by (metis surj_pair)
    have pos: "0 < length ?batch" using True by simp
    show ?thesis
    proof (cases outcome)
      case (Some e)
      have r: "batchLoop env incs (i + 50) (res\<lparr>errors := errors res + length ?batch\<rparr>, w1)
                 = (res', w')"
        using run True sb Some by (simp add: unf Let_def)
      have "errors res + length ?batch \<le> errors res'"
        using batchLoop_errors_mono [OF r] by simp
      with pos ok show ?thesis by simp
    next
      case None
      have r: "batchLoop env incs (i + 50) (res\<lparr>processed := processed res + length ?batch\<rparr>, w1)
                 = (res', w')"
        using run True sb None by (simp add: unf Let_def)
      have e': "errors res' = errors (res\<lparr>processed := processed res + length ?batch\<rparr>)"
        using ok by simp
      have ih: "grows (table w1) (table w')
          \<and> list_all (\<lambda>inc.
            (title_vector inc \<noteq> None \<or> covered TitleVector (inc_id inc) (table w'))
            \<and> (description_vector inc \<noteq> None
               \<or> covered DescriptionVector (inc_id inc) (table w'))) (drop (i + 50) incs)"
        by (rule "1.hyps"(1) [OF True refl sb [symmetric] None wb emb r e'])
      have "set ?batch \<subseteq> set incs"
        using set_take_subset [of 50 "drop i incs"] set_drop_subset [of i incs] by blast
      then have eb: "list_all embeddable ?batch"
        using emb unfolding list_all_iff by blast
      have okb: "fst (processSingleBatch env ?batch w) = None"
        using sb None by simp
      have b: "grows (table w) (table w1)
          \<and> list_all (\<lambda>inc.
            (title_vector inc \<noteq> None \<or> covered TitleVector (inc_id inc) (table w1))
            \<and> (description_vector inc \<noteq> None
               \<or> covered DescriptionVector (inc_id inc) (table w1))) ?batch"
        using processSingleBatch_backfills [OF wb eb okb] unfolding sb by simp
      have g: "grows (table w) (table w')"
        using b ih by (blast intro: grows_trans)
      have bw: "list_all (\<lambda>inc.
            (title_vector inc \<noteq> None \<or> covered TitleVector (inc_id inc) (table w'))
            \<and> (description_vector inc \<noteq> None
               \<or> covered DescriptionVector (inc_id inc) (table w'))) ?batch"
        using b ih unfolding list_all_iff by (blast intro: covered_grows)
      have split: "drop i incs = ?batch @ drop (i + 50) incs"
        by (metis append_take_drop_id drop_drop add.commute)
      have "list_all (\<lambda>inc.
            (title_vector inc \<noteq> None \<or> covered TitleVector (inc_id inc) (table w'))
            \<and> (description_vector inc \<noteq> None
               \<or> covered DescriptionVector (inc_id inc) (table w')))
              (?batch @ drop (i + 50) incs)"
        using bw ih by simp
      then show ?thesis
        using g by (simp only: split [symmetric])
    qed
  qed
qed

lemma backfill_completes:
  assumes wb: "wellBehaved env"
    and emb: "list_all embeddable (table w)"
    and ok: "errors (fst (processAllMissingEmbeddings env w)) = 0"
  shows "list_all (\<lambda>r. \<not> missingEmbeddings r) (table (snd (processAllMissingEmbeddings env w)))"
proof -
  let ?L = "filter missingEmbeddings (table w)"
  let ?t' = "table (snd (processAllMissingEmbeddings env w))"
  have embL: "list_all embeddable ?L" using emb by (simp add: list_all_iff)
  have fin: "grows (table w) ?t'
       \<and> list_all (\<lambda>inc.
            (title_vector inc \<noteq> None \<or> covered TitleVector (inc_id inc) ?t')
            \<and> (description_vector inc \<noteq> None \<or> covered DescriptionVector (inc_id inc) ?t')) ?L"
  proof (cases "?L = []")
    case True
    then show ?thesis
      by (simp add: processAllMissingEmbeddings_def processBatchEmbeddings_def)
  next
    case False
    obtain res' w' where run:
      "batchLoop env ?L 0 (\<lparr>processed = 0, errors = 0\<rparr>, w) = (res', w')"
      by (metis surj_pair)
    have all: "processAllMissingEmbeddings env w = (res', w')"
      using False run by (simp add: processAllMissingEmbeddings_def processBatchEmbeddings_def)
    have e: "errors res' = errors \<lparr>processed = 0, errors = 0\<rparr>"
      using ok unfolding all by simp
    show ?thesis
      using batchLoop_backfills [OF wb embL run e] unfolding all by simp
  qed
  have len: "length (table w) = length ?t'"
    using fin unfolding grows_def by (blast dest: list_all2_lengthD)
  have "\<not> missingEmbeddings (?t' ! p)" if p: "p < length ?t'" for p
  proof -
    let ?r = "table w ! p" and ?r' = "?t' ! p"
    have pw: "p < length (table w)" using p len by simp
    have rel: "inc_id ?r' = inc_id ?r
             \<and> (hasVector TitleVector ?r' \<or> \<not> hasVector TitleVector ?r)
             \<and> (hasVector DescriptionVector ?r' \<or> \<not> hasVector DescriptionVector ?r)"
      using fin pw unfolding grows_def by (blast dest: list_all2_nthD)
    have mem: "?r' \<in> set ?t'" using p by simp
    have cov: "hasVector f ?r'" if "covered f (inc_id ?r) ?t'" for f
      using that mem rel unfolding covered_def list_all_iff by metis
    have inL: "?r \<in> set ?L" if "missingEmbeddings ?r"
      using that pw by simp
    have t: "hasVector TitleVector ?r'"
    proof (cases "title_vector ?r")
      case None
      then have "missingEmbeddings ?r" by (simp add: missingEmbeddings_def)
      then have "covered TitleVector (inc_id ?r) ?t'"
        using fin inL None unfolding list_all_iff by blast
      then show ?thesis by (rule cov)
    next
      case (Some v)
      then show ?thesis using rel by (simp add: hasVector_def)
    qed
    have d: "hasVector DescriptionVector ?r'"
    proof (cases "description_vector ?r")
      case None
      then have "missingEmbeddings ?r" by (simp add: missingEmbeddings_def)
      then have "covered DescriptionVector (inc_id ?r) ?t'"
        using fin inL None unfolding list_all_iff by blast
      then show ?thesis by (rule cov)
    next
      case (Some v)
      then show ?thesis using rel by (simp add: hasVector_def)
    qed
    show ?thesis using t d by (simp add: missingEmbeddings_def hasVector_def)
  qed
  then show ?thesis by (simp add: list_all_length)
qed

lemma issueUpdates_flag:
  assumes "\<forall>n. \<not> update_rejects env n"
  shows "fst (issueUpdates env f incs i embs (rej, w)) = rej"
proof (induction incs arbitrary: i w)
  case Nil
  show ?case by simp
next
  case (Cons inc incs)
  show ?case
  proof (cases "at_index embs i")
    case None
    then show ?thesis using Cons by simp
  next
    case (Some v)
    have "repoUpdate env (inc_id inc) f v (rej, w)
            = (rej, snd (repoUpdate env (inc_id inc) f v (rej, w)))"
      using assms by (simp add: repoUpdate_def Let_def)
    then show ?thesis using Cons [of "i + 1" "snd (repoUpdate env (inc_id inc) f v (rej, w))"] Some
      by simp
  qed
qed

lemma processSingleBatch_accepted:
  assumes "\<forall>n. \<not> update_rejects env n"
  shows "fst (processSingleBatch env batch w) = None"
proof -
  have "fst (issueUpdates env f incs i embs (issueUpdates env g incs' i' embs' (False, x)))
          = False" for f g incs incs' i i' embs embs' x
  proof -
    obtain r1 x1 where u: "issueUpdates env g incs' i' embs' (False, x) = (r1, x1)"
      by (metis surj_pair)
    have "r1 = False"
      using issueUpdates_flag [OF assms, of g incs' i' embs' False x] u by simp
    then show ?thesis
      using issueUpdates_flag [OF assms, of f incs i embs r1 x1] u by simp
  qed
  then show ?thesis
    by (simp add: processSingleBatch_def Let_def case_prod_beta)
qed

lemma processBatchEmbeddings_trace:
  "processed (fst (processBatchEmbeddings env incidents w))
        = countWhere (\<lambda>outcome. outcome = None) (batchTrace env (subBatches incidents) w)
   \<and> errors (fst (processBatchEmbeddings env incidents w))
        = countWhere (\<lambda>outcome. outcome \<noteq> None) (batchTrace env (subBatches incidents) w)"
proof (cases "incidents = []")
  case True
  then show ?thesis
    by (simp add: processBatchEmbeddings_def countWhere_def)
next
  case False
  obtain res' w' where run:
    "batchLoop env incidents 0 (\<lparr>processed = 0, errors = 0\<rparr>, w) = (res', w')"
    by (metis surj_pair)
  show ?thesis
    using False batchLoop_trace [OF run] run by (simp add: processBatchEmbeddings_def)
qed

lemma no_rejection_no_errors:
  assumes "\<forall>n. \<not> update_rejects env n"
  shows "errors (fst (processBatchEmbeddings env incidents w)) = 0"
proof -
  have "countWhere (\<lambda>outcome. outcome \<noteq> None) (batchTrace env batches x) = 0" for batches x
  proof (induction batches arbitrary: x)
    case Nil
    show ?case by (simp add: countWhere_def)
  next
    case (Cons b bs)
    obtain outcome x1 where sb: "processSingleBatch env b x = (outcome, x1)" by (metis surj_pair)
    then have "outcome = None" using processSingleBatch_accepted [OF assms, of b x] by simp
    then show ?case using Cons [of x1] sb by (simp add: countWhere_def)
  qed
  then show ?thesis
    using processBatchEmbeddings_trace [of env incidents w] by simp
qed

lemma batchLoop_single:
  "batchLoop env [x] 0 (res, w) =
     (case processSingleBatch env [x] w of
        (None, w') \<Rightarrow> (res\<lparr>processed := processed res + 1\<rparr>, w')
      | (Some e, w') \<Rightarrow> (res\<lparr>errors := errors res + 1\<rparr>, w'))"
  by (subst batchLoop.simps) (simp add: batchLoop.simps split: prod.splits option.splits)

lemma first_pass_single:
  "processSingleBatch env0 [rowA] wOne = (None, wOne1)"
proof -
  have f: "filter needsTitle [rowA] = [rowA]" "filter needsDescription [rowA] = []"
    by (simp_all add: needsTitle_def needsDescription_def rowA_def utf16_def)
  have c: "cachedVector env0 wOne t = None" for t
    by (simp add: cachedVector_def wOne_def)
  have o: "openai env0 = None" by (simp add: env0_def)
  have t: "title rowA = utf16 ''a''" "inc_id rowA = ''A''" by (simp_all add: rowA_def)
  have s: "substring0 8191 (utf16 ''a'') = utf16 ''a''" by (simp add: substring0_def utf16_def)
  show ?thesis
    unfolding processSingleBatch_def f
    by (simp add: t s batchFinish_fallback_one [OF o nonBlank_a c] at_index_def repoUpdate_def)
       (simp add: env0_def wOne_def wOne1_def rowA1_def setVector_def t)
qed

lemma second_pass_single:
  "processSingleBatch env0 [rowA1] wOne1 = (None, wOne1)"
proof -
  have f: "filter needsTitle [rowA1] = []" "filter needsDescription [rowA1] = []"
    by (simp_all add: needsTitle_def needsDescription_def rowA1_def rowA_def)
  show ?thesis
    unfolding processSingleBatch_def f by simp
qed

text \<open>
  Claim C2 says that a second backfill directly after a first reports \<open>processed == 0\<close>.
  For a store with one record that has a title and no description, the first pass writes
  the title vector and reports no error; the record still matches
  \<open>title_vector IS NULL OR description_vector IS NULL\<close>, and the second pass counts it
  as processed again.
\<close>

theorem second_backfill_counts_record_again:
  "processAllMissingEmbeddings env0 wOne = (\<lparr>processed = 1, errors = 0\<rparr>, wOne1)
   \<and> processAllMissingEmbeddings env0 (snd (processAllMissingEmbeddings env0 wOne))
       = (\<lparr>processed = 1, errors = 0\<rparr>, wOne1)"
proof -
  have m: "filter missingEmbeddings (table wOne) = [rowA]"
          "filter missingEmbeddings (table wOne1) = [rowA1]"
    by (simp_all add: missingEmbeddings_def wOne_def wOne1_def rowA_def rowA1_def)
  have 1: "processAllMissingEmbeddings env0 wOne = (\<lparr>processed = 1, errors = 0\<rparr>, wOne1)"
    by (simp add: processAllMissingEmbeddings_def processBatchEmbeddings_def m batchLoop_single
          first_pass_single)
  have 2: "processAllMissingEmbeddings env0 wOne1 = (\<lparr>processed = 1, errors = 0\<rparr>, wOne1)"
    by (simp add: processAllMissingEmbeddings_def processBatchEmbeddings_def m batchLoop_single
          second_pass_single)
  show ?thesis by (simp add: 1 2)
qed

text \<open>
  Claim C2, amended. When the first backfill reports \<open>errors == 0\<close>, every record
  with a missing vector has a non-blank text for that field, and the provider, if
  configured, answers every request it does not fail with one vector per input, then
  after the first pass no record matches the missing-vector query, and a second pass
  with no record added in between reports \<open>processed == 0\<close> and \<open>errors == 0\<close>.
\<close>

theorem second_backfill_finds_nothing:
  assumes "wellBehaved env"
    and "list_all embeddable (table w)"
    and "errors (fst (processAllMissingEmbeddings env w)) = 0"
  shows "processAllMissingEmbeddings env (snd (processAllMissingEmbeddings env w))
           = (\<lparr>processed = 0, errors = 0\<rparr>, snd (processAllMissingEmbeddings env w))
       \<and> filter missingEmbeddings (table (snd (processAllMissingEmbeddings env w))) = []"
proof -
  have "filter missingEmbeddings (table (snd (processAllMissingEmbeddings env w))) = []"
    using backfill_completes [OF assms] by (simp add: list_all_iff filter_empty_conv)
  then show ?thesis
    by (simp add: processAllMissingEmbeddings_def [of env "snd (processAllMissingEmbeddings env w)"]
          processBatchEmbeddings_def)
qed

theorem second_backfill_finds_nothing_witness:
  "wellBehaved env0
   \<and> list_all embeddable (table wTwo)
   \<and> errors (fst (processAllMissingEmbeddings env0 wTwo)) = 0
   \<and> processed (fst (processAllMissingEmbeddings env0 (snd (processAllMissingEmbeddings env0 wTwo)))) = 0"
proof -
  have 1: "wellBehaved env0" by (simp add: wellBehaved_def env0_def)
  have nb: "nonBlank (utf16 ''Camden burglary'')" "nonBlank (utf16 ''robbery near station'')"
    by (simp_all add: nonBlank_iff utf16_def isWhiteSpace_def)
  have 2: "list_all embeddable (table wTwo)"
    by (simp add: wTwo_def embeddable_def rowFull_def rowDone_def nb)
  have "\<forall>n. \<not> update_rejects env0 n" by (simp add: env0_def)
  then have 3: "errors (fst (processAllMissingEmbeddings env0 wTwo)) = 0"
    by (simp add: processAllMissingEmbeddings_def no_rejection_no_errors)
  show ?thesis
    using second_backfill_finds_nothing [OF 1 2 3] 1 2 3 by simp
qed

end
